theory Spec2Isabelle
  imports Main "HOL-Library.AList"
begin

section \<open>The parsed document\<close>

text \<open>
  Both versions of the scraper, \<^verbatim>\<open>Alma_CKB_Scraper_10_dev.py\<close> and
  \<^verbatim>\<open>Alma_CKB_Scraper_11_dev.py\<close>, hand the page to BeautifulSoup and query the
  resulting tree. The tree is modelled as it is after parsing: elements with a (lower-case)
  tag name, the attribute list and the children, and string leaves. A string leaf is
  either text, or one of the strings that \<^verbatim>\<open>.text\<close> leaves out: a comment, a
  declaration, or the content of a \<^verbatim>\<open>script\<close>, \<^verbatim>\<open>style\<close> or \<^verbatim>\<open>template\<close>
  element. The document object is itself an element (BeautifulSoup names it
  \<^verbatim>\<open>[document]\<close>).
\<close>

datatype node =
    Element string "(string \<times> string) list" "node list"
  | Text string
  | Special string

text \<open>
  Document order: the element itself, then its descendants, depth first. A node is
  identified by its position in the document's list \<open>flatten doc\<close>; the subtree of the
  node at position \<open>i\<close> occupies the positions from \<open>i\<close> up to
  \<open>i + length (flatten (ns ! i))\<close>.
\<close>

fun flatten :: "node \<Rightarrow> node list" where
  "flatten (Text s) = [Text s]"
| "flatten (Special s) = [Special s]"
| "flatten (Element t a cs) = Element t a cs # concat (map flatten cs)"

text \<open>
  \<^verbatim>\<open>.text\<close> of a \<^verbatim>\<open>span\<close>, \<^verbatim>\<open>h2\<close>, \<^verbatim>\<open>th\<close> or \<^verbatim>\<open>td\<close>
  element: the text strings below it, concatenated.
\<close>

fun text_of :: "node \<Rightarrow> string" where
  "text_of (Text s) = s"
| "text_of (Special s) = []"
| "text_of (Element t a cs) = concat (map text_of cs)"

text \<open>\<^verbatim>\<open>str.strip()\<close>, on the code points below 256 that Python counts as white space.\<close>

definition is_space :: "char \<Rightarrow> bool" where
  "is_space c = (of_char c \<in> {9, 10, 11, 12, 13, 28, 29, 30, 31, 32, 133, 160 :: nat})"

definition strip :: "string \<Rightarrow> string" where
  "strip s = rev (dropWhile is_space (rev (dropWhile is_space s)))"

definition stripped_text :: "node \<Rightarrow> string" where
  "stripped_text n = strip (text_of n)"

text \<open>\<^verbatim>\<open>needle in hay\<close> on strings.\<close>

fun contains :: "string \<Rightarrow> string \<Rightarrow> bool" where
  "contains needle [] = (needle = [])"
| "contains needle (c # cs) = (take (length needle) (c # cs) = needle \<or> contains needle cs)"

text \<open>
  The \<^verbatim>\<open>class\<close> attribute is multi-valued: BeautifulSoup splits it at white space.
\<close>

fun split_ws :: "string \<Rightarrow> string \<Rightarrow> string list" where
  "split_ws cur [] = (if cur = [] then [] else [cur])"
| "split_ws cur (c # cs) =
     (if is_space c then (if cur = [] then split_ws [] cs else cur # split_ws [] cs)
      else split_ws (cur @ [c]) cs)"

fun join_sp :: "string list \<Rightarrow> string" where
  "join_sp [] = []"
| "join_sp [x] = x"
| "join_sp (x # y # ys) = x @ '' '' @ join_sp (y # ys)"

definition is_tag :: "string \<Rightarrow> node \<Rightarrow> bool" where
  "is_tag t n = (case n of Element t' a cs \<Rightarrow> t' = t | Text s \<Rightarrow> False | Special s \<Rightarrow> False)"

text \<open>
  A \<^verbatim>\<open>class_\<close> filter that is a function is called on every class of the element
  and then on the classes joined by a space, and on \<^verbatim>\<open>None\<close> when the element has
  no \<^verbatim>\<open>class\<close> attribute; a filter that is a string is compared the same way.
\<close>

definition class_matches :: "(string option \<Rightarrow> bool) \<Rightarrow> node \<Rightarrow> bool" where
  "class_matches P n =
     (case n of
        Text s \<Rightarrow> False
      | Special s \<Rightarrow> False
      | Element t a cs \<Rightarrow>
          (case map_of a ''class'' of
             None \<Rightarrow> P None
           | Some v \<Rightarrow> (\<exists>x \<in> set (split_ws [] v). P (Some x)) \<or> P (Some (join_sp (split_ws [] v)))))"

text \<open>\<^verbatim>\<open>lambda x: x and 'rnsub' in x\<close>\<close>

definition rnsub_filter :: "string option \<Rightarrow> bool" where
  "rnsub_filter x = (case x of None \<Rightarrow> False | Some s \<Rightarrow> s \<noteq> [] \<and> contains ''rnsub'' s)"

definition is_rnsub_div :: "node \<Rightarrow> bool" where
  "is_rnsub_div n = (is_tag ''div'' n \<and> class_matches rnsub_filter n)"

definition is_tag_span :: "node \<Rightarrow> bool" where
  "is_tag_span n = (is_tag ''span'' n \<and> class_matches (\<lambda>x. x = Some ''AlmaRNTag'') n)"

text \<open>
  \<^verbatim>\<open>find_all\<close> below the node at position \<open>i\<close>: the matching positions of its subtree,
  in document order. \<^verbatim>\<open>find\<close> is the first of them. \<^verbatim>\<open>find_previous\<close> from
  position \<open>j\<close> is the nearest matching position before \<open>j\<close> in document order.
\<close>

definition find_all :: "node list \<Rightarrow> nat \<Rightarrow> (node \<Rightarrow> bool) \<Rightarrow> nat list" where
  "find_all ns i P =
     (if i < length ns
      then filter (\<lambda>j. j < length ns \<and> P (ns ! j)) [Suc i ..< i + length (flatten (ns ! i))]
      else [])"

definition find_first :: "node list \<Rightarrow> nat \<Rightarrow> (node \<Rightarrow> bool) \<Rightarrow> nat option" where
  "find_first ns i P = (case find_all ns i P of [] \<Rightarrow> None | j # js \<Rightarrow> Some j)"

definition find_previous :: "node list \<Rightarrow> nat \<Rightarrow> (node \<Rightarrow> bool) \<Rightarrow> nat option" where
  "find_previous ns j P =
     (case filter (\<lambda>k. k < length ns \<and> P (ns ! k)) (rev [0 ..< j]) of
        [] \<Rightarrow> None
      | k # ks \<Rightarrow> Some k)"

section \<open>Table extraction\<close>

text \<open>
  A record of a table is a Python dict from column name to cell text: an association list
  with distinct keys in insertion order. Storing under a key that is present replaces the
  value in place, storing under a new key appends, which is \<open>AList.update\<close>. A table is
  the dict with the keys \<^verbatim>\<open>headers\<close>, \<^verbatim>\<open>rows\<close> and \<^verbatim>\<open>table_title\<close>.
\<close>

type_synonym row_dict = "(string \<times> string) list"

record table =
  headers :: "string list"
  rows :: "row_dict list"
  table_title :: string

datatype error = IndexError | KeyError | RequestException | ConfigError | SelectorError | OSError

text \<open>
  \<^verbatim>\<open>{headers[i]: cells[i] for i in range(len(headers))}\<close>: the indices are visited
  in order, and an index outside \<open>cells\<close> raises.
\<close>

fun row_comprehension :: "string list \<Rightarrow> string list \<Rightarrow> nat list \<Rightarrow> row_dict \<Rightarrow> error + row_dict" where
  "row_comprehension hs cs [] d = Inr d"
| "row_comprehension hs cs (i # is) d =
     (if length hs \<le> i \<or> length cs \<le> i then Inl IndexError
      else row_comprehension hs cs is (AList.update (hs ! i) (cs ! i) d))"

definition synthetic_fields :: "string \<Rightarrow> string \<Rightarrow> string \<Rightarrow> row_dict" where
  "synthetic_fields week_info source_url title =
     [(''week_info'', week_info), (''source_url'', source_url), (''table_title'', title)]"

text \<open>\<^verbatim>\<open>dict.update\<close> with the entries of another dict, in their order.\<close>

definition dict_update :: "row_dict \<Rightarrow> row_dict \<Rightarrow> row_dict" where
  "dict_update d kvs = fold (\<lambda>(k, v). AList.update k v) kvs d"

text \<open>The body of the row loop: the record of one row, or the error it raises.\<close>

definition row_data :: "string list \<Rightarrow> string list \<Rightarrow> string \<Rightarrow> string \<Rightarrow> string \<Rightarrow> error + row_dict" where
  "row_data hs cs week_info source_url title =
     (case row_comprehension hs cs [0 ..< length hs] [] of
        Inl e \<Rightarrow> Inl e
      | Inr d \<Rightarrow> Inr (dict_update d (synthetic_fields week_info source_url title)))"

text \<open>The queries of the loops, on the flattened document \<open>ns\<close>.\<close>

definition rnsub_divs :: "node list \<Rightarrow> nat list" where
  "rnsub_divs ns = find_all ns 0 is_rnsub_div"

definition week_info_of :: "node list \<Rightarrow> nat \<Rightarrow> string" where
  "week_info_of ns i =
     (case find_first ns i is_tag_span of
        Some k \<Rightarrow> stripped_text (ns ! k)
      | None \<Rightarrow> ''Unknown Week'')"

definition tables_of :: "node list \<Rightarrow> nat \<Rightarrow> nat list" where
  "tables_of ns i = find_all ns i (is_tag ''table'')"

definition table_title_of :: "node list \<Rightarrow> nat \<Rightarrow> string" where
  "table_title_of ns j =
     (case find_previous ns j (is_tag ''h2'') of
        Some k \<Rightarrow> stripped_text (ns ! k)
      | None \<Rightarrow> ''Untitled Table'')"

definition headers_of :: "node list \<Rightarrow> nat \<Rightarrow> string list" where
  "headers_of ns j = map (\<lambda>k. stripped_text (ns ! k)) (find_all ns j (is_tag ''th''))"

definition data_rows :: "node list \<Rightarrow> nat \<Rightarrow> nat list" where
  "data_rows ns j = drop 1 (find_all ns j (is_tag ''tr''))"

definition cells_of :: "node list \<Rightarrow> nat \<Rightarrow> string list" where
  "cells_of ns r = map (\<lambda>k. stripped_text (ns ! k)) (find_all ns r (is_tag ''td''))"

subsection \<open>Version 10: a row that raises is skipped\<close>

text \<open>
  The row loop of version 10 wraps each row in its own \<^verbatim>\<open>try\<close>: a row that raises
  appends nothing, and the loop goes on.
\<close>

fun table_data_10 :: "node list \<Rightarrow> string list \<Rightarrow> string \<Rightarrow> string \<Rightarrow> string \<Rightarrow> nat list \<Rightarrow> row_dict list" where
  "table_data_10 ns hs week_info source_url title [] = []"
| "table_data_10 ns hs week_info source_url title (r # rs) =
     (case row_data hs (cells_of ns r) week_info source_url title of
        Inl e \<Rightarrow> table_data_10 ns hs week_info source_url title rs
      | Inr d \<Rightarrow> d # table_data_10 ns hs week_info source_url title rs)"

definition process_table_10 :: "node list \<Rightarrow> string \<Rightarrow> string \<Rightarrow> nat \<Rightarrow> error + table" where
  "process_table_10 ns source_url week_info j =
     (let title = table_title_of ns j;
          hs = headers_of ns j
      in Inr \<lparr> headers = hs @ [''week_info'', ''source_url'', ''table_title''],
               rows = table_data_10 ns hs week_info source_url title (data_rows ns j),
               table_title = title \<rparr>)"

subsection \<open>Version 11: a row that raises ends the table\<close>

text \<open>
  Version 11 has no \<^verbatim>\<open>try\<close> in the row loop: the error of a row leaves the loop and
  reaches the handler of the table.
\<close>

fun table_data_11 :: "node list \<Rightarrow> string list \<Rightarrow> string \<Rightarrow> string \<Rightarrow> string \<Rightarrow> nat list \<Rightarrow> error + row_dict list" where
  "table_data_11 ns hs week_info source_url title [] = Inr []"
| "table_data_11 ns hs week_info source_url title (r # rs) =
     (case row_data hs (cells_of ns r) week_info source_url title of
        Inl e \<Rightarrow> Inl e
      | Inr d \<Rightarrow>
          (case table_data_11 ns hs week_info source_url title rs of
             Inl e \<Rightarrow> Inl e
           | Inr ds \<Rightarrow> Inr (d # ds)))"

definition process_table_11 :: "node list \<Rightarrow> string \<Rightarrow> string \<Rightarrow> nat \<Rightarrow> error + table" where
  "process_table_11 ns source_url week_info j =
     (let title = table_title_of ns j;
          hs = headers_of ns j
      in case table_data_11 ns hs week_info source_url title (data_rows ns j) of
           Inl e \<Rightarrow> Inl e
         | Inr ds \<Rightarrow>
             Inr \<lparr> headers = hs @ [''week_info'', ''source_url'', ''table_title''],
                   rows = ds,
                   table_title = title \<rparr>)"

subsection \<open>The loops over sections and tables\<close>

text \<open>
  In both versions the handler of a table logs the error and the loop goes on with the
  next table: a table that raises appends nothing. The calls of \<^verbatim>\<open>logging\<close> have no
  effect on what the functions return and are left out, except in the writer below.
\<close>

fun tables_loop :: "(nat \<Rightarrow> error + table) \<Rightarrow> nat list \<Rightarrow> table list" where
  "tables_loop process [] = []"
| "tables_loop process (j # js) =
     (case process j of
        Inl e \<Rightarrow> tables_loop process js
      | Inr t \<Rightarrow> t # tables_loop process js)"

fun divs_loop :: "(string \<Rightarrow> nat \<Rightarrow> error + table) \<Rightarrow> node list \<Rightarrow> nat list \<Rightarrow> table list" where
  "divs_loop process ns [] = []"
| "divs_loop process ns (i # is) =
     tables_loop (process (week_info_of ns i)) (tables_of ns i) @ divs_loop process ns is"

definition extract_tables_10 :: "node \<Rightarrow> string \<Rightarrow> table list" where
  "extract_tables_10 html_content source_url =
     (let ns = flatten html_content
      in divs_loop (process_table_10 ns source_url) ns (rnsub_divs ns))"

definition extract_tables_11 :: "node \<Rightarrow> string \<Rightarrow> table list" where
  "extract_tables_11 html_content source_url =
     (let ns = flatten html_content
      in divs_loop (process_table_11 ns source_url) ns (rnsub_divs ns))"

section \<open>The output directories\<close>

text \<open>
  A directory is the list of its entries in the order in which \<^verbatim>\<open>os.listdir\<close>
  enumerates them, with distinct names; an entry is a file, with its text, or a
  directory. A directory that does not exist yet is \<open>None\<close>;
  \<^verbatim>\<open>os.makedirs(..., exist_ok=True)\<close> creates it empty.
\<close>

datatype entry = File string | Dir "(string \<times> entry) list"

type_synonym listing = "(string \<times> entry) list"

definition makedirs :: "listing option \<Rightarrow> listing" where
  "makedirs d = (case d of None \<Rightarrow> [] | Some l \<Rightarrow> l)"

definition listdir :: "listing \<Rightarrow> string list" where
  "listdir d = map fst d"

definition path_exists :: "listing \<Rightarrow> string \<Rightarrow> bool" where
  "path_exists d name = (name \<in> set (listdir d))"

datatype fs_error = FileNotFoundError | IsADirectory | FileExistsError

text \<open>\<^verbatim>\<open>os.remove\<close> deletes a file and raises on a directory.\<close>

definition os_remove :: "listing \<Rightarrow> string \<Rightarrow> fs_error + listing" where
  "os_remove d name =
     (case map_of d name of
        None \<Rightarrow> Inl FileNotFoundError
      | Some (Dir l) \<Rightarrow> Inl IsADirectory
      | Some (File c) \<Rightarrow> Inr (AList.delete name d))"

text \<open>
  \<^verbatim>\<open>os.rename\<close> of the entry \<open>name\<close> of one directory to the same name in another
  one. The scraper runs on Windows paths, where an existing destination raises.
\<close>

definition os_rename :: "listing \<Rightarrow> string \<Rightarrow> listing \<Rightarrow> fs_error + listing \<times> listing" where
  "os_rename src name dst =
     (case map_of src name of
        None \<Rightarrow> Inl FileNotFoundError
      | Some e \<Rightarrow>
          if path_exists dst name then Inl FileExistsError
          else Inr (AList.delete name src, dst @ [(name, e)]))"

text \<open>Opening a file for writing creates or replaces it, and raises on a directory.\<close>

definition write_file :: "listing \<Rightarrow> string \<Rightarrow> string \<Rightarrow> fs_error + listing" where
  "write_file d name content =
     (case map_of d name of
        Some (Dir l) \<Rightarrow> Inl IsADirectory
      | Some (File c) \<Rightarrow> Inr (AList.update name (File content) d)
      | None \<Rightarrow> Inr (AList.update name (File content) d))"

section \<open>Archive rotation (version 11)\<close>

record slots =
  current :: "listing option"
  last_time :: "listing option"

text \<open>
  The loop of \<^verbatim>\<open>manage_output_folders\<close> only deletes from \<^verbatim>\<open>last time\<close>; an
  error of \<^verbatim>\<open>os.remove\<close> leaves the function with what has been deleted so far.
\<close>

fun remove_loop :: "string list \<Rightarrow> listing \<Rightarrow> fs_error option \<times> listing" where
  "remove_loop [] dst = (None, dst)"
| "remove_loop (file_name # names) dst =
     (if path_exists dst file_name
      then (case os_remove dst file_name of
              Inl e \<Rightarrow> (Some e, dst)
            | Inr dst' \<Rightarrow> remove_loop names dst')
      else remove_loop names dst)"

text \<open>
  The \<^verbatim>\<open>os.rename\<close> stands after the loop, inside the \<^verbatim>\<open>if\<close>: it runs once,
  with the paths of the last \<open>file_name\<close> of the loop.
\<close>

definition manage_output_folders :: "slots \<Rightarrow> fs_error option \<times> slots" where
  "manage_output_folders fs =
     (let current_dir = makedirs (current fs);
          last_time_dir = makedirs (last_time fs)
      in if listdir current_dir \<noteq> []
         then (case remove_loop (listdir current_dir) last_time_dir of
                 (Some e, dst) \<Rightarrow> (Some e, \<lparr> current = Some current_dir, last_time = Some dst \<rparr>)
               | (None, dst) \<Rightarrow>
                   (case os_rename current_dir (last (listdir current_dir)) dst of
                      Inl e \<Rightarrow> (Some e, \<lparr> current = Some current_dir, last_time = Some dst \<rparr>)
                    | Inr (src', dst') \<Rightarrow> (None, \<lparr> current = Some src', last_time = Some dst' \<rparr>)))
         else (None, \<lparr> current = Some current_dir, last_time = Some last_time_dir \<rparr>))"

section \<open>The dataset writer\<close>

text \<open>
  \<^verbatim>\<open>pd.DataFrame(table['rows'])\<close> takes its columns from the keys of the records, in
  the order of their first appearance; the \<^verbatim>\<open>headers\<close> of the table are not read.
  The rows of the frame are the column labels, then for each record its values under
  these labels, with an empty string where a record lacks a label.
\<close>

definition first_occurrences :: "string list \<Rightarrow> string list" where
  "first_occurrences ks = fold (\<lambda>k seen. if k \<in> set seen then seen else seen @ [k]) ks []"

definition frame_columns :: "row_dict list \<Rightarrow> string list" where
  "frame_columns rs = first_occurrences (concat (map (map fst) rs))"

definition frame_line :: "string list \<Rightarrow> row_dict \<Rightarrow> string list" where
  "frame_line cols r = map (\<lambda>c. case map_of r c of Some v \<Rightarrow> v | None \<Rightarrow> []) cols"

definition frame_rows :: "row_dict list \<Rightarrow> string list list" where
  "frame_rows rs = frame_columns rs # map (frame_line (frame_columns rs)) rs"

text \<open>
  \<^verbatim>\<open>to_csv(index=False)\<close> hands these rows to \<^verbatim>\<open>csv.writer\<close> with the default
  dialect: a field is put in double quotes when it holds a comma, a double quote, a
  carriage return or a line feed, and a double quote inside it is doubled; the fields of
  a row are joined by commas; a row whose only field is empty is written as two double
  quotes; every row is followed by the line terminator, which is \<^verbatim>\<open>os.linesep\<close>.
\<close>

definition comma :: char where
  "comma = CHR '',''"

definition dquote :: char where
  "dquote = CHR 0x22"

definition cr :: char where
  "cr = CHR 0x0D"

definition lf :: char where
  "lf = CHR 0x0A"

definition needs_quote :: "string \<Rightarrow> bool" where
  "needs_quote f = (\<exists>c \<in> set f. c = comma \<or> c = dquote \<or> c = cr \<or> c = lf)"

fun double_quotes :: "string \<Rightarrow> string" where
  "double_quotes [] = []"
| "double_quotes (c # cs) =
     (if c = dquote then dquote # dquote # double_quotes cs else c # double_quotes cs)"

definition csv_field :: "string \<Rightarrow> string" where
  "csv_field f = (if needs_quote f then dquote # double_quotes f @ [dquote] else f)"

fun join_fields :: "string list \<Rightarrow> string" where
  "join_fields [] = []"
| "join_fields [f] = f"
| "join_fields (f # g # gs) = f @ comma # join_fields (g # gs)"

definition csv_row :: "string list \<Rightarrow> string" where
  "csv_row fs = (if fs = [[]] then [dquote, dquote] else join_fields (map csv_field fs))"

definition csv_text :: "string \<Rightarrow> string list list \<Rightarrow> string" where
  "csv_text linesep rs = concat (map (\<lambda>r. csv_row r @ linesep) rs)"

definition to_csv :: "string \<Rightarrow> row_dict list \<Rightarrow> string" where
  "to_csv linesep rs = csv_text linesep (frame_rows rs)"

text \<open>\<^verbatim>\<open>f"table_{idx}.csv"\<close>\<close>

definition digit_char :: "nat \<Rightarrow> char" where
  "digit_char d = char_of (48 + d)"

fun str_nat :: "nat \<Rightarrow> string" where
  "str_nat n = (if n < 10 then [digit_char n] else str_nat (n div 10) @ [digit_char (n mod 10)])"

declare str_nat.simps [simp del]

definition table_filename :: "nat \<Rightarrow> string" where
  "table_filename idx = ''table_'' @ str_nat idx @ ''.csv''"

text \<open>
  What a call of \<^verbatim>\<open>save_tables\<close> leaves behind: the value it returns, the output
  directory, and the lines it logs at level INFO or above. The first argument of the
  functions below is \<^verbatim>\<open>os.linesep\<close>.
\<close>

datatype pyval = PyNone | PyInt nat

datatype log_event =
    SavingTo
  | Saved string string
  | ErrorSaving nat fs_error
  | SavedOutOf nat nat

record save_result =
  returned :: pyval
  directory :: listing
  logged :: "log_event list"

text \<open>
  Version 10 counts the tables it has written in \<^verbatim>\<open>saved_count\<close> and logs the count
  with the number of tables after the loop. The function has no \<^verbatim>\<open>return\<close>.
\<close>

fun save_loop_10 :: "string \<Rightarrow> table list \<Rightarrow> nat \<Rightarrow> listing \<times> nat \<times> log_event list \<Rightarrow> listing \<times> nat \<times> log_event list" where
  "save_loop_10 linesep [] idx st = st"
| "save_loop_10 linesep (t # ts) idx (d, saved_count, lg) =
     (case write_file d (table_filename idx) (to_csv linesep (rows t)) of
        Inl e \<Rightarrow> save_loop_10 linesep ts (Suc idx) (d, saved_count, lg @ [ErrorSaving idx e])
      | Inr d' \<Rightarrow>
          save_loop_10 linesep ts (Suc idx)
            (d', Suc saved_count, lg @ [Saved (table_title t) (table_filename idx)]))"

definition save_tables_10 :: "string \<Rightarrow> table list \<Rightarrow> listing option \<Rightarrow> save_result" where
  "save_tables_10 linesep extracted_tables output_dir =
     (case save_loop_10 linesep extracted_tables 1 (makedirs output_dir, 0, [SavingTo]) of
        (d, saved_count, lg) \<Rightarrow>
          \<lparr> returned = PyNone,
            directory = d,
            logged = lg @ [SavedOutOf saved_count (length extracted_tables)] \<rparr>)"

text \<open>Version 11 keeps no count.\<close>

fun save_loop_11 :: "string \<Rightarrow> table list \<Rightarrow> nat \<Rightarrow> listing \<times> log_event list \<Rightarrow> listing \<times> log_event list" where
  "save_loop_11 linesep [] idx st = st"
| "save_loop_11 linesep (t # ts) idx (d, lg) =
     (case write_file d (table_filename idx) (to_csv linesep (rows t)) of
        Inl e \<Rightarrow> save_loop_11 linesep ts (Suc idx) (d, lg @ [ErrorSaving idx e])
      | Inr d' \<Rightarrow>
          save_loop_11 linesep ts (Suc idx)
            (d', lg @ [Saved (table_title t) (table_filename idx)]))"

definition save_tables_11 :: "string \<Rightarrow> table list \<Rightarrow> listing option \<Rightarrow> save_result" where
  "save_tables_11 linesep extracted_tables output_dir =
     (case save_loop_11 linesep extracted_tables 1 (makedirs output_dir, [SavingTo]) of
        (d, lg) \<Rightarrow> \<lparr> returned = PyNone, directory = d, logged = lg \<rparr>)"

section \<open>Link resolution and the pipeline\<close>

text \<open>
  What the run reads from outside: whether \<^verbatim>\<open>setup_logging\<close> raises, the result of
  \<^verbatim>\<open>load_config\<close>, the page that \<^verbatim>\<open>requests.get\<close> returns for a URL (parsed, or
  the exception of the request), the CSS selection \<^verbatim>\<open>select_one\<close>, which may
  reject a selector, and the line terminator \<^verbatim>\<open>os.linesep\<close> of the platform. An entry
  that the configuration lacks is \<open>None\<close>; reading it raises \<^verbatim>\<open>KeyError\<close>.
\<close>

record config =
  main_url :: "string option"
  container_selector :: "string option"
  list_selector :: "string option"

record world =
  setup_logging :: "error option"
  load_config :: "error + config"
  http_get :: "string \<Rightarrow> error + node"
  select_one :: "string \<Rightarrow> node \<Rightarrow> error + node option"
  os_linesep :: string

definition href_of :: "node \<Rightarrow> string option" where
  "href_of n =
     (case n of Element t a cs \<Rightarrow> map_of a ''href'' | Text s \<Rightarrow> None | Special s \<Rightarrow> None)"

text \<open>
  The body of the \<^verbatim>\<open>try\<close> of \<open>get_latest_month_url\<close>, the same in both versions:
  the URL it returns (\<^verbatim>\<open>None\<close> when the container or the link is missing), or the
  exception that leaves it.
\<close>

definition latest_link_body :: "world \<Rightarrow> config \<Rightarrow> error + string option" where
  "latest_link_body w cfg =
     (case main_url cfg of
        None \<Rightarrow> Inl KeyError
      | Some url \<Rightarrow>
          (case http_get w url of
             Inl e \<Rightarrow> Inl e
           | Inr soup \<Rightarrow>
               (case container_selector cfg of
                  None \<Rightarrow> Inl KeyError
                | Some container_sel \<Rightarrow>
                    (case select_one w container_sel soup of
                       Inl e \<Rightarrow> Inl e
                     | Inr None \<Rightarrow> Inr None
                     | Inr (Some container) \<Rightarrow>
                         (case list_selector cfg of
                            None \<Rightarrow> Inl KeyError
                          | Some list_sel \<Rightarrow>
                              (case select_one w list_sel container of
                                 Inl e \<Rightarrow> Inl e
                               | Inr None \<Rightarrow> Inr None
                               | Inr (Some latest_link) \<Rightarrow>
                                   (case href_of latest_link of
                                      Some full_url \<Rightarrow> Inr (Some full_url)
                                    | None \<Rightarrow> Inr None)))))))"

text \<open>
  Version 11 catches \<^verbatim>\<open>requests.RequestException\<close> only; any other exception leaves
  the function.
\<close>

definition get_latest_month_url_11 :: "world \<Rightarrow> config \<Rightarrow> error + string option" where
  "get_latest_month_url_11 w cfg =
     (case latest_link_body w cfg of
        Inl e \<Rightarrow> (if e = RequestException then Inr None else Inl e)
      | Inr latest \<Rightarrow> Inr latest)"

text \<open>Version 10 catches every exception and returns \<^verbatim>\<open>None\<close>.\<close>

definition get_latest_month_url_10 :: "world \<Rightarrow> config \<Rightarrow> error + string option" where
  "get_latest_month_url_10 w cfg =
     (case latest_link_body w cfg of
        Inl e \<Rightarrow> Inr None
      | Inr latest \<Rightarrow> Inr latest)"

text \<open>\<^verbatim>\<open>not latest_url\<close>: \<^verbatim>\<open>None\<close> or the empty string.\<close>

definition falsy :: "string option \<Rightarrow> bool" where
  "falsy u = (case u of None \<Rightarrow> True | Some s \<Rightarrow> s = [])"

datatype run_error = Pipeline error | Filesystem fs_error

text \<open>
  \<^verbatim>\<open>main\<close>: the exception it re-raises, if any, and the output directories after the
  run. Version 11 rotates and writes into \<^verbatim>\<open>current\<close>; version 10 writes into the
  base directory. The directory of the log files is not part of the output directories.
\<close>

definition main_11 :: "world \<Rightarrow> slots \<Rightarrow> run_error option \<times> slots" where
  "main_11 w fs =
     (case setup_logging w of
        Some e \<Rightarrow> (Some (Pipeline e), fs)
      | None \<Rightarrow>
     (case load_config w of
        Inl e \<Rightarrow> (Some (Pipeline e), fs)
      | Inr cfg \<Rightarrow>
          (case get_latest_month_url_11 w cfg of
             Inl e \<Rightarrow> (Some (Pipeline e), fs)
           | Inr latest_url \<Rightarrow>
               if falsy latest_url then (None, fs)
               else (case http_get w (the latest_url) of
                       Inl e \<Rightarrow> (Some (Pipeline e), fs)
                     | Inr html_content \<Rightarrow>
                         (case manage_output_folders fs of
                            (Some e, fs') \<Rightarrow> (Some (Filesystem e), fs')
                          | (None, fs') \<Rightarrow>
                              (None, fs' \<lparr> current :=
                                 Some (directory (save_tables_11 (os_linesep w)
                                   (extract_tables_11 html_content (the latest_url))
                                   (current fs'))) \<rparr>))))))"

definition main_10 :: "world \<Rightarrow> listing option \<Rightarrow> run_error option \<times> listing option" where
  "main_10 w output_dir =
     (case setup_logging w of
        Some e \<Rightarrow> (Some (Pipeline e), output_dir)
      | None \<Rightarrow>
     (case load_config w of
        Inl e \<Rightarrow> (Some (Pipeline e), output_dir)
      | Inr cfg \<Rightarrow>
          (case get_latest_month_url_10 w cfg of
             Inl e \<Rightarrow> (Some (Pipeline e), output_dir)
           | Inr latest_url \<Rightarrow>
               if falsy latest_url then (None, output_dir)
               else (case http_get w (the latest_url) of
                       Inl e \<Rightarrow> (Some (Pipeline e), output_dir)
                     | Inr html_content \<Rightarrow>
                         (None, Some (directory (save_tables_10 (os_linesep w)
                            (extract_tables_10 html_content (the latest_url))
                            output_dir)))))))"

section \<open>Notions used in the statements\<close>

text \<open>
  The pairs of a section block and a table below it, in the order of the two loops, and
  the tables all of whose data rows have a cell for every header.
\<close>

definition table_positions :: "node list \<Rightarrow> (nat \<times> nat) list" where
  "table_positions ns = concat (map (\<lambda>i. map (\<lambda>j. (i, j)) (tables_of ns i)) (rnsub_divs ns))"

definition rows_complete :: "node list \<Rightarrow> nat \<Rightarrow> bool" where
  "rows_complete ns j =
     (\<forall>r \<in> set (data_rows ns j). length (headers_of ns j) \<le> length (cells_of ns r))"

text \<open>The paths of a directory that are directories themselves: no file can be written there.\<close>

definition is_dir :: "listing \<Rightarrow> string \<Rightarrow> bool" where
  "is_dir d name = (case map_of d name of Some (Dir l) \<Rightarrow> True | Some (File c) \<Rightarrow> False | None \<Rightarrow> False)"

subsection \<open>Reading a written file back\<close>

text \<open>
  The repository has no reader. Reading a written file back is stated against the reader
  of Python's csv module with its default dialect, on a file opened with
  \<^verbatim>\<open>newline=''\<close>: outside double quotes a comma ends a field and a carriage return,
  a line feed or the two together end a row; a field that starts with a double quote
  runs to the closing one, a doubled double quote in it standing for one; an empty line
  gives a row without fields. The states are those of the module, with \<open>AfterCR\<close> for
  the line feed that may follow a carriage return.
\<close>

datatype reader_state =
  StartRecord | AfterCR | StartField | InField | InQuotedField | QuoteInQuotedField

fun reader :: "reader_state \<Rightarrow> string \<Rightarrow> string list \<Rightarrow> string \<Rightarrow> string list list" where
  "reader StartRecord field row [] = []"
| "reader AfterCR field row [] = []"
| "reader st field row [] = [row @ [field]]"
| "reader StartRecord field row (c # cs) =
     (if c = cr then [] # reader AfterCR [] [] cs
      else if c = lf then [] # reader StartRecord [] [] cs
      else if c = dquote then reader InQuotedField [] [] cs
      else if c = comma then reader StartField [] [[]] cs
      else reader InField [c] [] cs)"
| "reader AfterCR field row (c # cs) =
     (if c = lf then reader StartRecord [] [] cs
      else if c = cr then [] # reader AfterCR [] [] cs
      else if c = dquote then reader InQuotedField [] [] cs
      else if c = comma then reader StartField [] [[]] cs
      else reader InField [c] [] cs)"
| "reader StartField field row (c # cs) =
     (if c = cr then (row @ [[]]) # reader AfterCR [] [] cs
      else if c = lf then (row @ [[]]) # reader StartRecord [] [] cs
      else if c = dquote then reader InQuotedField [] row cs
      else if c = comma then reader StartField [] (row @ [[]]) cs
      else reader InField [c] row cs)"
| "reader InField field row (c # cs) =
     (if c = cr then (row @ [field]) # reader AfterCR [] [] cs
      else if c = lf then (row @ [field]) # reader StartRecord [] [] cs
      else if c = comma then reader StartField [] (row @ [field]) cs
      else reader InField (field @ [c]) row cs)"
| "reader InQuotedField field row (c # cs) =
     (if c = dquote then reader QuoteInQuotedField field row cs
      else reader InQuotedField (field @ [c]) row cs)"
| "reader QuoteInQuotedField field row (c # cs) =
     (if c = dquote then reader InQuotedField (field @ [dquote]) row cs
      else if c = comma then reader StartField [] (row @ [field]) cs
      else if c = cr then (row @ [field]) # reader AfterCR [] [] cs
      else if c = lf then (row @ [field]) # reader StartRecord [] [] cs
      else reader InField (field @ [c]) row cs)"

definition csv_reader :: "string \<Rightarrow> string list list" where
  "csv_reader text = reader StartRecord [] [] text"

text \<open>
  The characters that make the writer quote a field, the texts that end a field, and what
  the reader does at the end of a field.
\<close>

definition special :: "char \<Rightarrow> bool" where
  "special c = (c = comma \<or> c = dquote \<or> c = cr \<or> c = lf)"

definition ends_field :: "string \<Rightarrow> bool" where
  "ends_field rest = (case rest of [] \<Rightarrow> False | c # cs \<Rightarrow> c = comma \<or> c = cr \<or> c = lf)"

definition field_end :: "string \<Rightarrow> string list \<Rightarrow> string \<Rightarrow> string list list" where
  "field_end field row rest =
     (case rest of
        [] \<Rightarrow> [row @ [field]]
      | c # cs \<Rightarrow>
          if c = comma then reader StartField [] (row @ [field]) cs
          else if c = cr then (row @ [field]) # reader AfterCR [] [] cs
          else (row @ [field]) # reader StartRecord [] [] cs)"

text \<open>A value with a line break in it.\<close>

definition has_line_break :: "string \<Rightarrow> bool" where
  "has_line_break v = (cr \<in> set v \<or> lf \<in> set v)"

text \<open>
  The lines of a text, a line ending at a line feed, at a carriage return, or at the two
  together. The first argument tells whether the previous character was a carriage
  return, the second is the line read so far.
\<close>

fun physical_lines :: "bool \<Rightarrow> string \<Rightarrow> string \<Rightarrow> string list" where
  "physical_lines after_cr line [] = (if line = [] then [] else [line])"
| "physical_lines after_cr line (c # cs) =
     (if c = lf then
        (if after_cr then physical_lines False [] cs else line # physical_lines False [] cs)
      else if c = cr then line # physical_lines True [] cs
      else physical_lines False (line @ [c]) cs)"

definition lines_of :: "string \<Rightarrow> string list" where
  "lines_of text = physical_lines False [] text"

subsection \<open>Example documents\<close>

definition th :: "string \<Rightarrow> node" where
  "th s = Element ''th'' [] [Text s]"

definition td :: "string \<Rightarrow> node" where
  "td s = Element ''td'' [] [Text s]"

definition tr :: "node list \<Rightarrow> node" where
  "tr cs = Element ''tr'' [] cs"

text \<open>One section with a tag and a heading; the first data row of its table has one cell for two headers.\<close>

definition short_row_doc :: node where
  "short_row_doc = Element ''[document]'' []
     [Element ''h2'' [] [Text ''Titles''],
      Element ''div'' [(''class'', ''mt-section rnsub1'')]
        [Element ''span'' [(''class'', ''AlmaRNTag'')] [Text '' Week 1 ''],
         Element ''table'' []
           [tr [th ''A'', th ''B''], tr [td ''1''], tr [td ''2'', td ''3'']]]]"

text \<open>One section with two tables; the first data row of the first table is short.\<close>

definition two_table_doc :: node where
  "two_table_doc = Element ''[document]'' []
     [Element ''div'' [(''class'', ''rnsub'')]
        [Element ''table'' [] [tr [th ''A'', th ''B''], tr [td ''1''], tr [td ''2'', td ''3'']],
         Element ''table'' [] [tr [th ''C''], tr [td ''4'']]]]"

text \<open>One section without a tag, one table without a heading before it.\<close>

definition plain_doc :: node where
  "plain_doc = Element ''[document]'' []
     [Element ''div'' [(''class'', ''rnsub'')]
        [Element ''table'' [] [tr [th ''C''], tr [td ''4'']]]]"

subsection \<open>Example runs and directories\<close>

text \<open>A root page on which no selector matches, and a \<^verbatim>\<open>current\<close> slot with one file.\<close>

definition no_container_world :: world where
  "no_container_world =
     \<lparr> setup_logging = None,
       load_config = Inr \<lparr> main_url = Some ''https://kb.example/release_notes'',
                            container_selector = Some ''div.mt-sortable-listings'',
                            list_selector = Some ''a'' \<rparr>,
       http_get = (\<lambda>url. Inr (Element ''[document]'' [] [Element ''p'' [] [Text ''moved'']])),
       select_one = (\<lambda>selector n. Inr None),
       os_linesep = ''\<newline>'' \<rparr>"

definition one_file_slots :: slots where
  "one_file_slots = \<lparr> current = Some [(''table_1.csv'', File ''A,B'')], last_time = None \<rparr>"

text \<open>
  A \<^verbatim>\<open>last time\<close> slot in which the name of a current file is taken by a directory,
  and a pair of slots with two current files and three archived ones.
\<close>

definition blocked_slots :: slots where
  "blocked_slots =
     \<lparr> current = Some [(''table_1.csv'', File ''A,B'')],
       last_time = Some [(''table_1.csv'', Dir [])] \<rparr>"

definition two_file_slots :: slots where
  "two_file_slots =
     \<lparr> current = Some [(''table_1.csv'', File ''A,B''),
                       (''table_2.csv'', File ''C,D'')],
       last_time = Some [(''table_2.csv'', File ''old''),
                         (''notes.txt'', File ''keep''),
                         (''table_1.csv'', File ''older'')] \<rparr>"

text \<open>A table with a header row only, and a table with the same header label twice.\<close>

definition header_only_doc :: node where
  "header_only_doc = Element ''[document]'' []
     [Element ''div'' [(''class'', ''rnsub'')]
        [Element ''table'' [] [tr [th ''A'']]]]"

definition dup_header_doc :: node where
  "dup_header_doc = Element ''[document]'' []
     [Element ''div'' [(''class'', ''rnsub'')]
        [Element ''table'' [] [tr [th ''A'', th ''A''], tr [td ''1'', td ''2'']]]]"


text \<open>A table with a line feed inside a cell.\<close>

definition linefeed_doc :: node where
  "linefeed_doc = Element ''[document]'' []
     [Element ''div'' [(''class'', ''rnsub'')]
        [Element ''table'' [] [tr [th ''A''], tr [td ''x\<newline>y'']]]]"

text \<open>Two sections with their own tags, each with one table.\<close>

definition two_section_doc :: node where
  "two_section_doc = Element ''[document]'' []
     [Element ''div'' [(''class'', ''rnsub'')]
        [Element ''span'' [(''class'', ''AlmaRNTag'')] [Text ''W1''],
         Element ''table'' [] [tr [th ''A''], tr [td ''1'']]],
      Element ''div'' [(''class'', ''rnsub'')]
        [Element ''span'' [(''class'', ''AlmaRNTag'')] [Text ''W2''],
         Element ''table'' [] [tr [th ''A''], tr [td ''2'']]]]"

section \<open>The record of a row\<close>

lemma row_comprehension_upt:
  "row_comprehension hs cs [k ..< length hs] d =
     (if k < length hs \<and> length cs < length hs then Inl IndexError
      else Inr (dict_update d (drop k (zip hs cs))))"
proof (induction "length hs - k" arbitrary: k d)
  case 0
  then show ?case by (simp add: dict_update_def)
next
  case (Suc n)
  then have k: "k < length hs" and n: "n = length hs - Suc k" by linarith+
  show ?case
  proof (cases "length cs \<le> k")
    case True
    with k show ?thesis by (simp add: upt_conv_Cons)
  next
    case False
    then have kc: "k < length cs" by simp
    have d: "drop k (zip hs cs) = (hs ! k, cs ! k) # drop (Suc k) (zip hs cs)"
      using k kc by (simp add: Cons_nth_drop_Suc [symmetric])
    show ?thesis
      using k kc Suc.hyps(1) [OF n, of "AList.update (hs ! k) (cs ! k) d"]
      by (auto simp add: upt_conv_Cons d dict_update_def)
  qed
qed

lemma row_data_eq:
  "row_data hs cs w u t =
     (if length cs < length hs then Inl IndexError
      else Inr (dict_update (dict_update [] (zip hs cs)) (synthetic_fields w u t)))"
  using row_comprehension_upt [of hs cs 0 "[]"] by (auto simp add: row_data_def)

lemma map_of_synthetic:
  "map_of (dict_update d (synthetic_fields w u t)) ''week_info'' = Some w"
  "map_of (dict_update d (synthetic_fields w u t)) ''source_url'' = Some u"
  "map_of (dict_update d (synthetic_fields w u t)) ''table_title'' = Some t"
  by (simp_all add: dict_update_def synthetic_fields_def update_conv')

section \<open>The loops of the extractor\<close>

lemma table_data_10_eq:
  "table_data_10 ns hs w u t rs =
     map (\<lambda>r. dict_update (dict_update [] (zip hs (cells_of ns r))) (synthetic_fields w u t))
       (filter (\<lambda>r. length hs \<le> length (cells_of ns r)) rs)"
  by (induction rs) (simp_all add: row_data_eq)

lemma table_data_11_eq:
  "table_data_11 ns hs w u t rs =
     (if \<exists>r \<in> set rs. length (cells_of ns r) < length hs then Inl IndexError
      else Inr (table_data_10 ns hs w u t rs))"
  by (induction rs) (auto simp add: row_data_eq)

lemma tables_loop_mem:
  "t \<in> set (tables_loop process js) \<Longrightarrow> \<exists>j \<in> set js. process j = Inr t"
  by (induction js) (auto split: sum.splits)

lemma divs_loop_mem:
  "t \<in> set (divs_loop process ns is) \<Longrightarrow>
     \<exists>i \<in> set is. \<exists>j \<in> set (tables_of ns i). process (week_info_of ns i) j = Inr t"
  by (induction "is") (auto dest: tables_loop_mem)

lemma process_table_10_eq:
  "process_table_10 ns url w j =
     Inr \<lparr> headers = headers_of ns j @ [''week_info'', ''source_url'', ''table_title''],
           rows = table_data_10 ns (headers_of ns j) w url (table_title_of ns j) (data_rows ns j),
           table_title = table_title_of ns j \<rparr>"
  by (simp add: process_table_10_def Let_def)

lemma process_table_11_eq:
  "process_table_11 ns url w j =
     (if rows_complete ns j then process_table_10 ns url w j else Inl IndexError)"
proof -
  have "rows_complete ns j \<longleftrightarrow>
          \<not> (\<exists>r \<in> set (data_rows ns j). length (cells_of ns r) < length (headers_of ns j))"
    by (auto simp add: rows_complete_def not_le)
  then show ?thesis
    by (simp add: process_table_11_def process_table_10_def Let_def table_data_11_eq)
qed

lemma process_table_Inr:
  assumes "process_table_10 ns url w j = Inr t \<or> process_table_11 ns url w j = Inr t"
  shows "table_title t = table_title_of ns j"
    and "rows t = table_data_10 ns (headers_of ns j) w url (table_title_of ns j) (data_rows ns j)"
    and "headers t = headers_of ns j @ [''week_info'', ''source_url'', ''table_title'']"
  using assms by (auto simp add: process_table_11_eq process_table_10_eq split: if_splits)

lemma extract_tables_mem:
  assumes "t \<in> set (extract_tables_10 doc url) \<or> t \<in> set (extract_tables_11 doc url)"
  shows "\<exists>i \<in> set (rnsub_divs (flatten doc)). \<exists>j \<in> set (tables_of (flatten doc) i).
           process_table_10 (flatten doc) url (week_info_of (flatten doc) i) j = Inr t \<or>
           process_table_11 (flatten doc) url (week_info_of (flatten doc) i) j = Inr t"
  using assms
  by (auto simp add: extract_tables_10_def extract_tables_11_def Let_def dest!: divs_loop_mem)

section \<open>The synthetic columns\<close>

text \<open>
  Claim C7. Every record of every table that either version of \<open>extract_tables\<close>
  returns has the three synthetic columns. The table is the one that the table loop
  builds for a table element \<open>j\<close> below a section block \<open>i\<close> of the document, under
  the label of \<open>i\<close>; in each of its records \<^verbatim>\<open>week_info\<close> is that label,
  \<^verbatim>\<open>source_url\<close> is the URL passed to the extractor, and \<^verbatim>\<open>table_title\<close> is the
  title of the table, which is the title found for \<open>j\<close>.
\<close>

theorem extract_tables_synthetic_columns:
  assumes "t \<in> set (extract_tables_10 doc url) \<or> t \<in> set (extract_tables_11 doc url)"
    and "r \<in> set (rows t)"
  shows "\<exists>i \<in> set (rnsub_divs (flatten doc)). \<exists>j \<in> set (tables_of (flatten doc) i).
           (process_table_10 (flatten doc) url (week_info_of (flatten doc) i) j = Inr t \<or>
            process_table_11 (flatten doc) url (week_info_of (flatten doc) i) j = Inr t) \<and>
           table_title t = table_title_of (flatten doc) j \<and>
           map_of r ''week_info'' = Some (week_info_of (flatten doc) i) \<and>
           map_of r ''source_url'' = Some url \<and>
           map_of r ''table_title'' = Some (table_title t)"
proof -
  let ?ns = "flatten doc"
  from extract_tables_mem [OF assms(1)] obtain i j where
    i: "i \<in> set (rnsub_divs ?ns)" and j: "j \<in> set (tables_of ?ns i)" and
    p: "process_table_10 ?ns url (week_info_of ?ns i) j = Inr t \<or>
        process_table_11 ?ns url (week_info_of ?ns i) j = Inr t"
    by blast
  note f = process_table_Inr [OF p]
  from assms(2) obtain d where
    r: "r = dict_update d (synthetic_fields (week_info_of ?ns i) url (table_title_of ?ns j))"
    unfolding f(2) table_data_10_eq by auto
  have "table_title t = table_title_of ?ns j \<and>
        map_of r ''week_info'' = Some (week_info_of ?ns i) \<and>
        map_of r ''source_url'' = Some url \<and>
        map_of r ''table_title'' = Some (table_title t)"
    unfolding r f(1) by (simp add: map_of_synthetic)
  with i j p show ?thesis by blast
qed

theorem extract_tables_synthetic_columns_witness:
  "(\<lparr> headers = [''A'', ''week_info'', ''source_url'', ''table_title''],
      rows = [[(''A'', ''2''), (''week_info'', ''W2''),
               (''source_url'', ''u''), (''table_title'', ''Untitled Table'')]],
      table_title = ''Untitled Table'' \<rparr> \<in> set (extract_tables_11 two_section_doc ''u'')) \<and>
   (\<exists>i \<in> set (rnsub_divs (flatten two_section_doc)).
      \<exists>j \<in> set (tables_of (flatten two_section_doc) i).
        ''Untitled Table'' = table_title_of (flatten two_section_doc) j \<and>
        ''W2'' = week_info_of (flatten two_section_doc) i)"
proof -
  let ?r = "[(''A'', ''2''), (''week_info'', ''W2''),
               (''source_url'', ''u''), (''table_title'', ''Untitled Table'')]"
  let ?t = "\<lparr> headers = [''A'', ''week_info'', ''source_url'', ''table_title''],
      rows = [?r], table_title = ''Untitled Table'' \<rparr>"
  have a: "?t \<in> set (extract_tables_11 two_section_doc ''u'')" by code_simp
  have b: "?r \<in> set (rows ?t)" by simp
  from extract_tables_synthetic_columns [OF disjI2 [OF a] b] a show ?thesis
    by auto
qed

section \<open>A row with fewer cells than headers\<close>

text \<open>
  Claim C1 says that a data row with fewer cells than headers yields a record with only
  the leading columns. It does not: in \<open>short_row_doc\<close> the row with the single cell
  \<^verbatim>\<open>1\<close> under the headers \<^verbatim>\<open>A\<close>, \<^verbatim>\<open>B\<close> has no record in the table that version 10
  returns, and version 11 returns no table at all.
\<close>

theorem short_row_counterexample:
  "extract_tables_10 short_row_doc ''u'' =
     [\<lparr> headers = [''A'', ''B'', ''week_info'', ''source_url'', ''table_title''],
        rows = [[(''A'', ''2''), (''B'', ''3''), (''week_info'', ''Week 1''),
                 (''source_url'', ''u''), (''table_title'', ''Titles'')]],
        table_title = ''Titles'' \<rparr>] \<and>
   extract_tables_11 short_row_doc ''u'' = []"
  by code_simp

text \<open>
  Claim C1, as the code has it. For a data row with fewer cells than the table has
  headers, building the record raises \<open>IndexError\<close> and no record is produced, truncated
  or otherwise. Version 10 catches the error in the row loop: the records of the table are
  those of the rows with a cell for every header, in order, so the table has fewer records
  than data rows. Version 11 catches it in the table loop: the table is not built.
\<close>

theorem short_row_yields_no_record:
  assumes "r \<in> set (data_rows ns j)"
    and "length (cells_of ns r) < length (headers_of ns j)"
  shows "row_data (headers_of ns j) (cells_of ns r) w url (table_title_of ns j) = Inl IndexError \<and>
         (\<exists>t. process_table_10 ns url w j = Inr t \<and>
              rows t =
                map (\<lambda>r'. dict_update (dict_update [] (zip (headers_of ns j) (cells_of ns r')))
                            (synthetic_fields w url (table_title_of ns j)))
                  (filter (\<lambda>r'. length (headers_of ns j) \<le> length (cells_of ns r')) (data_rows ns j)) \<and>
              length (rows t) < length (data_rows ns j)) \<and>
         process_table_11 ns url w j = Inl IndexError"
proof -
  have a: "row_data (headers_of ns j) (cells_of ns r) w url (table_title_of ns j) = Inl IndexError"
    using assms(2) by (simp add: row_data_eq)
  have "length (filter (\<lambda>r'. length (headers_of ns j) \<le> length (cells_of ns r')) (data_rows ns j))
          < length (data_rows ns j)"
    using assms by (intro length_filter_less [of r]) auto
  then have b: "\<exists>t. process_table_10 ns url w j = Inr t \<and>
              rows t =
                map (\<lambda>r'. dict_update (dict_update [] (zip (headers_of ns j) (cells_of ns r')))
                            (synthetic_fields w url (table_title_of ns j)))
                  (filter (\<lambda>r'. length (headers_of ns j) \<le> length (cells_of ns r')) (data_rows ns j)) \<and>
              length (rows t) < length (data_rows ns j)"
    by (simp add: process_table_10_eq table_data_10_eq)
  have "\<not> rows_complete ns j"
    using assms leD unfolding rows_complete_def by blast
  then have c: "process_table_11 ns url w j = Inl IndexError"
    by (simp add: process_table_11_eq)
  from a b c show ?thesis by blast
qed

theorem short_row_yields_no_record_witness:
  "12 \<in> set (data_rows (flatten short_row_doc) 6) \<and>
   length (cells_of (flatten short_row_doc) 12) < length (headers_of (flatten short_row_doc) 6) \<and>
   row_data (headers_of (flatten short_row_doc) 6) (cells_of (flatten short_row_doc) 12)
     ''Week 1'' ''u'' (table_title_of (flatten short_row_doc) 6) = Inl IndexError \<and>
   process_table_11 (flatten short_row_doc) ''u'' ''Week 1'' 6 = Inl IndexError"
proof -
  have a: "12 \<in> set (data_rows (flatten short_row_doc) 6)" by code_simp
  have b: "length (cells_of (flatten short_row_doc) 12) < length (headers_of (flatten short_row_doc) 6)"
    by code_simp
  from short_row_yields_no_record [OF a b, of "''Week 1''" "''u''"] a b show ?thesis by blast
qed


section \<open>Where the error of a row is caught\<close>

lemma tables_loop_Inr:
  "map Inr (tables_loop process js) = filter (\<lambda>x. \<not> isl x) (map process js)"
  by (induction js) (auto split: sum.splits)

lemma divs_loop_Inr:
  "map Inr (divs_loop process ns is) =
     concat (map (\<lambda>i. filter (\<lambda>x. \<not> isl x) (map (process (week_info_of ns i)) (tables_of ns i))) is)"
  by (induction "is") (simp_all add: tables_loop_Inr)

lemma positions_map:
  "map (\<lambda>(i, j). f i j) (concat (map (\<lambda>i. map (\<lambda>j. (i, j)) (g i)) is)) =
     concat (map (\<lambda>i. map (f i) (g i)) is)"
  by (induction "is") simp_all

lemma positions_filter:
  "filter (\<lambda>(i, j). P j) (concat (map (\<lambda>i. map (\<lambda>j. (i, j)) (g i)) is)) =
     concat (map (\<lambda>i. map (\<lambda>j. (i, j)) (filter P (g i))) is)"
  by (induction "is") (simp_all add: filter_map comp_def)

lemma filter_process_table_10:
  "filter (\<lambda>x. \<not> isl x) (map (process_table_10 ns url w) js) = map (process_table_10 ns url w) js"
  by (induction js) (simp_all add: process_table_10_eq)

lemma filter_process_table_11:
  "filter (\<lambda>x. \<not> isl x) (map (process_table_11 ns url w) js) =
     map (process_table_10 ns url w) (filter (rows_complete ns) js)"
  by (induction js) (simp_all add: process_table_11_eq process_table_10_eq)

text \<open>
  Claim C2 says that the error of a row never costs the table. In version 11 it does:
  the first table of \<open>two_table_doc\<close> has a short row followed by a full one, and the
  result holds the second table only.
\<close>

theorem two_table_counterexample:
  "extract_tables_11 two_table_doc ''u'' =
     [\<lparr> headers = [''C'', ''week_info'', ''source_url'', ''table_title''],
        rows = [[(''C'', ''4''), (''week_info'', ''Unknown Week''),
                 (''source_url'', ''u''), (''table_title'', ''Untitled Table'')]],
        table_title = ''Untitled Table'' \<rparr>]"
  by code_simp

text \<open>
  Claim C2, as the code has it. Version 10 catches the error of a row at the row: every
  table of every section block appears in the result, in order, and the records of a table
  are those of its rows that do not raise, the rows after a failing one included.
  Version 11 catches the error of a row at the table: the result holds, in order, exactly
  the tables all of whose rows are complete, each as version 10 builds it; the tables after
  a dropped one are still extracted. Neither version raises.
\<close>

theorem row_error_granularity:
  "map Inr (extract_tables_10 doc url) =
     map (\<lambda>(i, j). process_table_10 (flatten doc) url (week_info_of (flatten doc) i) j)
       (table_positions (flatten doc)) \<and>
   table_data_10 ns hs w u t rs =
     concat (map (\<lambda>r. case row_data hs (cells_of ns r) w u t of Inl e \<Rightarrow> [] | Inr d \<Rightarrow> [d]) rs) \<and>
   map Inr (extract_tables_11 doc url) =
     map (\<lambda>(i, j). process_table_10 (flatten doc) url (week_info_of (flatten doc) i) j)
       (filter (\<lambda>(i, j). rows_complete (flatten doc) j) (table_positions (flatten doc)))"
proof -
  let ?ns = "flatten doc"
  have a: "map Inr (extract_tables_10 doc url) =
     map (\<lambda>(i, j). process_table_10 ?ns url (week_info_of ?ns i) j) (table_positions ?ns)"
    by (simp add: extract_tables_10_def Let_def divs_loop_Inr filter_process_table_10
          table_positions_def positions_map)
  have b: "table_data_10 ns hs w u t rs =
     concat (map (\<lambda>r. case row_data hs (cells_of ns r) w u t of Inl e \<Rightarrow> [] | Inr d \<Rightarrow> [d]) rs)"
    by (induction rs) (simp_all split: sum.splits)
  have c: "map Inr (extract_tables_11 doc url) =
     map (\<lambda>(i, j). process_table_10 ?ns url (week_info_of ?ns i) j)
       (filter (\<lambda>(i, j). rows_complete ?ns j) (table_positions ?ns))"
    by (simp add: extract_tables_11_def Let_def divs_loop_Inr filter_process_table_11
          table_positions_def positions_map positions_filter)
  from a b c show ?thesis by blast
qed

theorem row_error_granularity_witness:
  "rows_complete (flatten two_table_doc) 16 \<and> \<not> rows_complete (flatten two_table_doc) 2 \<and>
   table_positions (flatten two_table_doc) = [(1, 2), (1, 16)] \<and>
   map Inr (extract_tables_11 two_table_doc ''u'') =
     [process_table_10 (flatten two_table_doc) ''u'' (week_info_of (flatten two_table_doc) 1) 16] \<and>
   map Inr (extract_tables_10 two_table_doc ''u'') =
     [process_table_10 (flatten two_table_doc) ''u'' (week_info_of (flatten two_table_doc) 1) 2,
      process_table_10 (flatten two_table_doc) ''u'' (week_info_of (flatten two_table_doc) 1) 16]"
proof -
  have a: "rows_complete (flatten two_table_doc) 16" by code_simp
  have b: "\<not> rows_complete (flatten two_table_doc) 2" by code_simp
  have c: "table_positions (flatten two_table_doc) = [(1, 2), (1, 16)]" by code_simp
  from row_error_granularity [of two_table_doc "''u''"] a b c show ?thesis by simp
qed


section \<open>The sentinels\<close>

lemma tables_loop_intro:
  "j \<in> set js \<Longrightarrow> process j = Inr t \<Longrightarrow> t \<in> set (tables_loop process js)"
  by (induction js) (auto split: sum.splits)

lemma divs_loop_intro:
  "i \<in> set is \<Longrightarrow> j \<in> set (tables_of ns i) \<Longrightarrow> process (week_info_of ns i) j = Inr t \<Longrightarrow>
     t \<in> set (divs_loop process ns is)"
  by (induction "is") (auto intro: tables_loop_intro)

lemma find_previous_None:
  "(\<forall>k<j. \<not> P (ns ! k)) \<Longrightarrow> find_previous ns j P = None"
  by (simp add: find_previous_def filter_empty_conv [THEN iffD2])

lemma find_first_None:
  "(\<forall>k. i < k \<and> k < i + length (flatten (ns ! i)) \<longrightarrow> \<not> P (ns ! k)) \<Longrightarrow> find_first ns i P = None"
  by (simp add: find_first_def find_all_def filter_empty_conv [THEN iffD2])

text \<open>
  Claim C8. Let \<open>j\<close> be a table below the section block \<open>i\<close> of the document. If no
  \<^verbatim>\<open>h2\<close> element stands before \<open>j\<close> in document order, the title is
  \<^verbatim>\<open>Untitled Table\<close>: version 10 returns the table of \<open>j\<close> under that title, and so
  does version 11 when it returns the table (when all its rows are complete). If no tag
  span stands below \<open>i\<close>, the label is \<^verbatim>\<open>Unknown Week\<close>, and the records of the
  table carry it.
\<close>

theorem sentinel_title_and_label:
  assumes "i \<in> set (rnsub_divs (flatten doc))"
    and "j \<in> set (tables_of (flatten doc) i)"
  shows "((\<forall>k<j. \<not> is_tag ''h2'' (flatten doc ! k)) \<longrightarrow>
            table_title_of (flatten doc) j = ''Untitled Table'' \<and>
            (\<exists>t \<in> set (extract_tables_10 doc url).
               process_table_10 (flatten doc) url (week_info_of (flatten doc) i) j = Inr t \<and>
               table_title t = ''Untitled Table'') \<and>
            (rows_complete (flatten doc) j \<longrightarrow>
               (\<exists>t \<in> set (extract_tables_11 doc url).
                  process_table_11 (flatten doc) url (week_info_of (flatten doc) i) j = Inr t \<and>
                  table_title t = ''Untitled Table''))) \<and>
         ((\<forall>k. i < k \<and> k < i + length (flatten (flatten doc ! i)) \<longrightarrow>
               \<not> is_tag_span (flatten doc ! k)) \<longrightarrow>
            week_info_of (flatten doc) i = ''Unknown Week'' \<and>
            (\<exists>t \<in> set (extract_tables_10 doc url).
               process_table_10 (flatten doc) url ''Unknown Week'' j = Inr t \<and>
               (\<forall>r \<in> set (rows t). map_of r ''week_info'' = Some ''Unknown Week'')) \<and>
            (rows_complete (flatten doc) j \<longrightarrow>
               (\<exists>t \<in> set (extract_tables_11 doc url).
                  process_table_11 (flatten doc) url ''Unknown Week'' j = Inr t \<and>
                  (\<forall>r \<in> set (rows t). map_of r ''week_info'' = Some ''Unknown Week''))))"
proof -
  let ?ns = "flatten doc"
  let ?w = "week_info_of ?ns i"
  obtain t where t: "process_table_10 ?ns url ?w j = Inr t"
    by (simp add: process_table_10_eq)
  have t10: "t \<in> set (extract_tables_10 doc url)"
    unfolding extract_tables_10_def Let_def
    by (rule divs_loop_intro [where process = "process_table_10 ?ns url", OF assms t])
  have t11: "rows_complete ?ns j \<Longrightarrow>
               process_table_11 ?ns url ?w j = Inr t \<and> t \<in> set (extract_tables_11 doc url)"
  proof -
    assume "rows_complete ?ns j"
    then have p: "process_table_11 ?ns url ?w j = Inr t"
      using t by (simp add: process_table_11_eq)
    have "t \<in> set (extract_tables_11 doc url)"
      unfolding extract_tables_11_def Let_def
      by (rule divs_loop_intro [where process = "process_table_11 ?ns url", OF assms p])
    with p show ?thesis by simp
  qed
  have title: "table_title t = table_title_of ?ns j"
    using t by (auto simp add: process_table_10_eq)
  have week: "\<forall>r \<in> set (rows t). map_of r ''week_info'' = Some ?w"
    using t by (auto simp add: process_table_10_eq table_data_10_eq map_of_synthetic)
  have a: "(\<forall>k<j. \<not> is_tag ''h2'' (?ns ! k)) \<Longrightarrow> table_title_of ?ns j = ''Untitled Table''"
    by (simp add: table_title_of_def find_previous_None)
  have b: "(\<forall>k. i < k \<and> k < i + length (flatten (?ns ! i)) \<longrightarrow> \<not> is_tag_span (?ns ! k)) \<Longrightarrow>
             ?w = ''Unknown Week''"
    by (simp add: week_info_of_def find_first_None)
  show ?thesis
    using t t10 t11 title week a b by (intro conjI impI) (metis+)
qed

theorem sentinel_title_and_label_witness:
  "1 \<in> set (rnsub_divs (flatten plain_doc)) \<and>
   2 \<in> set (tables_of (flatten plain_doc) 1) \<and>
   filter (\<lambda>k. is_tag ''h2'' (flatten plain_doc ! k)) [0 ..< 2] = [] \<and>
   filter (\<lambda>k. is_tag_span (flatten plain_doc ! k))
     [2 ..< 1 + length (flatten (flatten plain_doc ! 1))] = [] \<and>
   rows_complete (flatten plain_doc) 2 \<and>
   table_title_of (flatten plain_doc) 2 = ''Untitled Table'' \<and>
   week_info_of (flatten plain_doc) 1 = ''Unknown Week'' \<and>
   (\<exists>t \<in> set (extract_tables_11 plain_doc ''u''). table_title t = ''Untitled Table'')"
proof -
  have a: "1 \<in> set (rnsub_divs (flatten plain_doc))" by code_simp
  have b: "2 \<in> set (tables_of (flatten plain_doc) 1)" by code_simp
  have c': "filter (\<lambda>k. is_tag ''h2'' (flatten plain_doc ! k)) [0 ..< 2] = []" by code_simp
  then have "\<forall>k \<in> set [0 ..< 2]. \<not> is_tag ''h2'' (flatten plain_doc ! k)"
    by (simp only: filter_empty_conv)
  then have c: "\<forall>k<2. \<not> is_tag ''h2'' (flatten plain_doc ! k)" by simp
  have d': "filter (\<lambda>k. is_tag_span (flatten plain_doc ! k))
     [2 ..< 1 + length (flatten (flatten plain_doc ! 1))] = []" by code_simp
  then have "\<forall>k \<in> set [2 ..< 1 + length (flatten (flatten plain_doc ! 1))].
          \<not> is_tag_span (flatten plain_doc ! k)"
    by (simp only: filter_empty_conv)
  then have d: "\<forall>k. 1 < k \<and> k < 1 + length (flatten (flatten plain_doc ! 1)) \<longrightarrow>
        \<not> is_tag_span (flatten plain_doc ! k)"
    by (simp only: set_upt atLeastLessThan_iff Ball_def) (metis Suc_1 Suc_leI)
  have e: "rows_complete (flatten plain_doc) 2" by code_simp
  from sentinel_title_and_label [OF a b, of "''u''"] a b c d e c' d' show ?thesis
    by blast
qed

section \<open>A root page without the container\<close>

text \<open>
  Claim C5. When logging is set up, the configuration loads and names the root URL and
  the container selector, the root page is fetched and the container selector matches no
  element of it, \<open>get_latest_month_url\<close> returns \<^verbatim>\<open>None\<close> without raising, in both
  versions, and \<open>main\<close> returns without an exception and leaves the output directories
  as they were: no file is written.
\<close>

theorem missing_container_ends_cleanly:
  assumes "setup_logging w = None"
    and "load_config w = Inr cfg"
    and "main_url cfg = Some url"
    and "http_get w url = Inr page"
    and "container_selector cfg = Some sel"
    and "select_one w sel page = Inr None"
  shows "get_latest_month_url_11 w cfg = Inr None \<and>
         get_latest_month_url_10 w cfg = Inr None \<and>
         main_11 w fs = (None, fs) \<and>
         main_10 w output_dir = (None, output_dir)"
  using assms
  by (simp add: latest_link_body_def get_latest_month_url_11_def get_latest_month_url_10_def
        main_11_def main_10_def falsy_def)

theorem missing_container_ends_cleanly_witness:
  "setup_logging no_container_world = None \<and>
   load_config no_container_world =
     Inr \<lparr> main_url = Some ''https://kb.example/release_notes'',
           container_selector = Some ''div.mt-sortable-listings'',
           list_selector = Some ''a'' \<rparr> \<and>
   http_get no_container_world ''https://kb.example/release_notes'' =
     Inr (Element ''[document]'' [] [Element ''p'' [] [Text ''moved'']]) \<and>
   select_one no_container_world ''div.mt-sortable-listings''
     (Element ''[document]'' [] [Element ''p'' [] [Text ''moved'']]) = Inr None \<and>
   get_latest_month_url_11 no_container_world
     \<lparr> main_url = Some ''https://kb.example/release_notes'',
       container_selector = Some ''div.mt-sortable-listings'',
       list_selector = Some ''a'' \<rparr> = Inr None \<and>
   main_11 no_container_world one_file_slots = (None, one_file_slots) \<and>
   main_10 no_container_world None = (None, None)"
proof -
  let ?cfg = "\<lparr> main_url = Some ''https://kb.example/release_notes'',
           container_selector = Some ''div.mt-sortable-listings'',
           list_selector = Some ''a'' \<rparr>"
  let ?page = "Element ''[document]'' [] [Element ''p'' [] [Text ''moved'']]"
  have l: "setup_logging no_container_world = None"
    by (simp add: no_container_world_def)
  have a: "load_config no_container_world = Inr ?cfg"
    by (simp add: no_container_world_def)
  have u: "main_url ?cfg = Some ''https://kb.example/release_notes''" by simp
  have b: "http_get no_container_world ''https://kb.example/release_notes'' = Inr ?page"
    by (simp add: no_container_world_def)
  have s: "container_selector ?cfg = Some ''div.mt-sortable-listings''" by simp
  have c: "select_one no_container_world ''div.mt-sortable-listings'' ?page = Inr None"
    by (simp add: no_container_world_def)
  from missing_container_ends_cleanly [OF l a u b s c, of one_file_slots None] l a b c
  show ?thesis by simp
qed

section \<open>Rotation with an empty current slot\<close>

text \<open>
  Claim C10. When \<^verbatim>\<open>current\<close> does not exist or is empty, \<open>manage_output_folders\<close>
  returns without raising; afterwards \<^verbatim>\<open>current\<close> exists and is empty, and
  \<^verbatim>\<open>last time\<close> exists with exactly the entries it had (none when it did not
  exist). Nothing is moved, deleted or modified.
\<close>

theorem rotate_empty_current:
  fixes fs :: slots
  assumes "current fs = None \<or> current fs = Some []"
  shows "manage_output_folders fs =
           (None, \<lparr> current = Some [],
                    last_time = Some (case last_time fs of None \<Rightarrow> [] | Some l \<Rightarrow> l) \<rparr>)"
  using assms by (auto simp add: manage_output_folders_def makedirs_def listdir_def Let_def)

theorem rotate_empty_current_witness:
  "current \<lparr> current = None, last_time = Some [(''table_1.csv'', File ''A'')] \<rparr> = None \<and>
   manage_output_folders \<lparr> current = None, last_time = Some [(''table_1.csv'', File ''A'')] \<rparr> =
     (None, \<lparr> current = Some [], last_time = Some [(''table_1.csv'', File ''A'')] \<rparr>)"
proof -
  let ?fs = "\<lparr> current = None, last_time = Some [(''table_1.csv'', File ''A'')] \<rparr>"
  have a: "current ?fs = None \<or> current ?fs = Some []" by simp
  from rotate_empty_current [OF a] show ?thesis by simp
qed


section \<open>Rotation with a non-empty current slot\<close>

lemma path_exists_map_of: "path_exists d n \<longleftrightarrow> map_of d n \<noteq> None"
  by (simp add: path_exists_def listdir_def map_of_eq_None_iff)

lemma os_remove_file:
  "path_exists d n \<Longrightarrow> \<forall>l. map_of d n \<noteq> Some (Dir l) \<Longrightarrow> os_remove d n = Inr (AList.delete n d)"
  by (auto simp add: path_exists_map_of os_remove_def split: option.splits entry.splits)

lemma os_remove_dir:
  "map_of d n = Some (Dir l) \<Longrightarrow> os_remove d n = Inl IsADirectory"
  by (simp add: os_remove_def)

lemma delete_filter: "AList.delete k al = filter (\<lambda>p. fst p \<noteq> k) al"
  by (induction al) auto

lemma remove_loop_files:
  "\<forall>n \<in> set names. \<forall>l. map_of dst n \<noteq> Some (Dir l) \<Longrightarrow>
     remove_loop names dst = (None, filter (\<lambda>p. fst p \<notin> set names) dst)"
proof (induction names arbitrary: dst)
  case Nil
  then show ?case by simp
next
  case (Cons n names)
  show ?case
  proof (cases "path_exists dst n")
    case True
    have r: "os_remove dst n = Inr (AList.delete n dst)"
      using True Cons.prems by (simp add: os_remove_file)
    have "\<forall>m \<in> set names. \<forall>l. map_of (AList.delete n dst) m \<noteq> Some (Dir l)"
      using Cons.prems by (simp add: delete_conv)
    from Cons.IH [OF this] True r show ?thesis
      by (simp add: delete_filter conj_commute)
  next
    case False
    then have "filter (\<lambda>p. fst p \<noteq> n \<and> fst p \<notin> set names) dst = filter (\<lambda>p. fst p \<notin> set names) dst"
      by (intro filter_cong) (auto simp add: path_exists_def listdir_def)
    moreover have "\<forall>m \<in> set names. \<forall>l. map_of dst m \<noteq> Some (Dir l)"
      using Cons.prems by simp
    ultimately show ?thesis
      using False Cons.IH [of dst] by simp
  qed
qed

lemma remove_loop_dir:
  "\<exists>n \<in> set names. \<exists>l. map_of dst n = Some (Dir l) \<Longrightarrow>
     \<exists>dst'. remove_loop names dst = (Some IsADirectory, dst')"
proof (induction names arbitrary: dst)
  case Nil
  then show ?case by simp
next
  case (Cons n names)
  show ?case
  proof (cases "\<exists>l. map_of dst n = Some (Dir l)")
    case True
    then obtain l where l: "map_of dst n = Some (Dir l)" by blast
    then have "path_exists dst n" by (simp add: path_exists_map_of)
    with l show ?thesis by (simp add: os_remove_dir)
  next
    case False
    with Cons.prems obtain m l where m: "m \<in> set names" "map_of dst m = Some (Dir l)" "m \<noteq> n"
      by auto
    show ?thesis
    proof (cases "path_exists dst n")
      case True
      then have r: "os_remove dst n = Inr (AList.delete n dst)"
        using False by (simp add: os_remove_file)
      have "\<exists>k \<in> set names. \<exists>l. map_of (AList.delete n dst) k = Some (Dir l)"
        using m by (auto simp add: delete_conv)
      from Cons.IH [OF this] True r show ?thesis by simp
    next
      case False
      have "\<exists>k \<in> set names. \<exists>l. map_of dst k = Some (Dir l)" using m by blast
      from Cons.IH [OF this] False show ?thesis by simp
    qed
  qed
qed

lemma delete_last_key:
  "distinct (map fst xs) \<Longrightarrow> xs \<noteq> [] \<Longrightarrow> AList.delete (fst (last xs)) xs = butlast xs"
proof (induction xs rule: rev_induct)
  case Nil
  then show ?case by simp
next
  case (snoc x xs)
  then have "fst x \<notin> fst ` set xs" by simp
  then have "filter (\<lambda>p. fst p \<noteq> fst x) xs = xs"
    by (intro filter_True) (metis imageI)
  then show ?case by (simp add: delete_filter)
qed

lemma map_of_last:
  "distinct (map fst xs) \<Longrightarrow> xs \<noteq> [] \<Longrightarrow> map_of xs (fst (last xs)) = Some (snd (last xs))"
  by (simp add: map_of_eq_Some_iff)

text \<open>
  Claim C3 says that for every non-empty \<^verbatim>\<open>current\<close> the same-named entries are removed
  from \<^verbatim>\<open>last time\<close> and one entry is moved. When the same-named entry of
  \<^verbatim>\<open>last time\<close> is a directory, \<^verbatim>\<open>os.remove\<close> raises: nothing is removed and
  nothing is moved.
\<close>

theorem rotate_blocked_counterexample:
  "manage_output_folders blocked_slots = (Some IsADirectory, blocked_slots)"
  by (simp add: manage_output_folders_def blocked_slots_def makedirs_def listdir_def
        path_exists_def os_remove_def)

text \<open>
  Claim C3, as the code has it. Let \<^verbatim>\<open>current\<close> hold at least one entry. If no entry
  of \<^verbatim>\<open>last time\<close> with the name of an entry of \<^verbatim>\<open>current\<close> is a directory, the
  function returns normally: every entry of \<^verbatim>\<open>last time\<close> whose name appears in
  \<^verbatim>\<open>current\<close> is removed, the other entries of \<^verbatim>\<open>last time\<close> stay, and exactly the
  entry enumerated last in \<^verbatim>\<open>current\<close> is moved to \<^verbatim>\<open>last time\<close>; all other
  entries of \<^verbatim>\<open>current\<close> stay where they are. If there is such a directory, the
  function raises at its \<^verbatim>\<open>os.remove\<close> and \<^verbatim>\<open>current\<close> is unchanged.
\<close>

theorem rotate_moves_last_entry:
  fixes fs :: slots
  assumes "current fs = Some cur"
    and "cur \<noteq> []"
    and "distinct (map fst cur)"
  shows "((\<forall>n \<in> set (listdir cur). \<forall>l. map_of (makedirs (last_time fs)) n \<noteq> Some (Dir l)) \<longrightarrow>
            manage_output_folders fs =
              (None, \<lparr> current = Some (butlast cur),
                       last_time =
                         Some (filter (\<lambda>p. fst p \<notin> set (listdir cur)) (makedirs (last_time fs))
                               @ [last cur]) \<rparr>)) \<and>
         ((\<exists>n \<in> set (listdir cur). \<exists>l. map_of (makedirs (last_time fs)) n = Some (Dir l)) \<longrightarrow>
            (\<exists>prev'. manage_output_folders fs =
               (Some IsADirectory, \<lparr> current = Some cur, last_time = Some prev' \<rparr>)))"
proof (intro conjI impI)
  let ?prev = "makedirs (last_time fs)"
  let ?kept = "filter (\<lambda>p. fst p \<notin> set (listdir cur)) ?prev"
  assume files: "\<forall>n \<in> set (listdir cur). \<forall>l. map_of ?prev n \<noteq> Some (Dir l)"
  have loop: "remove_loop (listdir cur) ?prev = (None, ?kept)"
    by (rule remove_loop_files [OF files])
  have name: "last (listdir cur) = fst (last cur)"
    using assms(2) by (simp add: listdir_def last_map)
  have "fst (last cur) \<in> set (listdir cur)"
    using assms(2) by (simp add: listdir_def)
  then have free: "\<not> path_exists ?kept (fst (last cur))"
    by (simp add: path_exists_def listdir_def image_iff)
  have "os_rename cur (fst (last cur)) ?kept =
          Inr (butlast cur, ?kept @ [(fst (last cur), snd (last cur))])"
    using free assms by (simp add: os_rename_def map_of_last delete_last_key)
  then show "manage_output_folders fs =
      (None, \<lparr> current = Some (butlast cur), last_time = Some (?kept @ [last cur]) \<rparr>)"
    using assms loop name
    by (simp add: manage_output_folders_def Let_def makedirs_def [of "Some cur"] listdir_def)
next
  let ?prev = "makedirs (last_time fs)"
  assume "\<exists>n \<in> set (listdir cur). \<exists>l. map_of ?prev n = Some (Dir l)"
  from remove_loop_dir [OF this] obtain prev' where
    "remove_loop (listdir cur) ?prev = (Some IsADirectory, prev')" by blast
  then have "manage_output_folders fs =
      (Some IsADirectory, \<lparr> current = Some cur, last_time = Some prev' \<rparr>)"
    using assms
    by (simp add: manage_output_folders_def Let_def makedirs_def [of "Some cur"] listdir_def)
  then show "\<exists>prev'. manage_output_folders fs =
      (Some IsADirectory, \<lparr> current = Some cur, last_time = Some prev' \<rparr>)" by blast
qed

theorem rotate_moves_last_entry_witness:
  "current two_file_slots =
     Some [(''table_1.csv'', File ''A,B''), (''table_2.csv'', File ''C,D'')] \<and>
   distinct (map fst [(''table_1.csv'', File ''A,B''),
                      (''table_2.csv'', File ''C,D'')]) \<and>
   manage_output_folders two_file_slots =
     (None, \<lparr> current = Some [(''table_1.csv'', File ''A,B'')],
              last_time = Some [(''notes.txt'', File ''keep''),
                                (''table_2.csv'', File ''C,D'')] \<rparr>) \<and>
   (\<exists>prev'. manage_output_folders blocked_slots =
      (Some IsADirectory,
       \<lparr> current = Some [(''table_1.csv'', File ''A,B'')], last_time = Some prev' \<rparr>))"
proof -
  let ?cur = "[(''table_1.csv'', File ''A,B''), (''table_2.csv'', File ''C,D'')]"
  let ?one = "[(''table_1.csv'', File ''A,B'')]"
  have a: "current two_file_slots = Some ?cur" by (simp add: two_file_slots_def)
  have b: "?cur \<noteq> []" by simp
  have c: "distinct (map fst ?cur)" by simp
  have d: "\<forall>n \<in> set (listdir ?cur). \<forall>l. map_of (makedirs (last_time two_file_slots)) n \<noteq> Some (Dir l)"
    by (simp add: listdir_def makedirs_def two_file_slots_def)
  have a': "current blocked_slots = Some ?one" by (simp add: blocked_slots_def)
  have b': "?one \<noteq> []" by simp
  have c': "distinct (map fst ?one)" by simp
  have d': "\<exists>n \<in> set (listdir ?one). \<exists>l. map_of (makedirs (last_time blocked_slots)) n = Some (Dir l)"
    by (simp add: listdir_def makedirs_def blocked_slots_def)
  from rotate_moves_last_entry [OF a b c] d
  have "manage_output_folders two_file_slots =
     (None, \<lparr> current = Some ?one,
              last_time = Some [(''notes.txt'', File ''keep''),
                                (''table_2.csv'', File ''C,D'')] \<rparr>)"
    by (simp add: listdir_def makedirs_def two_file_slots_def)
  moreover from rotate_moves_last_entry [OF a' b' c'] d'
  have "\<exists>prev'. manage_output_folders blocked_slots =
      (Some IsADirectory, \<lparr> current = Some ?one, last_time = Some prev' \<rparr>)"
    by blast
  ultimately show ?thesis using a c by blast
qed


section \<open>The files of the writer\<close>

subsection \<open>File names\<close>

lemma str_nat_nonempty: "str_nat n \<noteq> []" "[] \<noteq> str_nat n"
  by (subst str_nat.simps, simp)+

lemma digit_char_inj: "a < 10 \<Longrightarrow> b < 10 \<Longrightarrow> digit_char a = digit_char b \<Longrightarrow> a = b"
proof -
  assume a: "a < 10" and b: "b < 10" and e: "digit_char a = digit_char b"
  have "(of_char (digit_char a) :: nat) = of_char (digit_char b)"
    by (simp only: e)
  then have "(48 + a) mod 256 = (48 + b) mod 256"
    by (simp only: digit_char_def of_char_of)
  moreover have "(48 + a) mod 256 = 48 + a" using a by (intro mod_less) linarith
  moreover have "(48 + b) mod 256 = 48 + b" using b by (intro mod_less) linarith
  ultimately show "a = b" by linarith
qed

lemma str_nat_inj: "str_nat m = str_nat n \<Longrightarrow> m = n"
proof (induction m arbitrary: n rule: str_nat.induct)
  case (1 m)
  show ?case
  proof (cases "m < 10")
    case True
    show ?thesis
    proof (cases "n < 10")
      case n: True
      from "1.prems" True n have "digit_char m = digit_char n"
        by (simp add: str_nat.simps [of m] str_nat.simps [of n])
      then show ?thesis by (rule digit_char_inj [OF True n])
    next
      case False
      with "1.prems" True show ?thesis
        by (simp add: str_nat.simps [of m] str_nat.simps [of n] str_nat_nonempty)
    qed
  next
    case False
    show ?thesis
    proof (cases "n < 10")
      case True
      with "1.prems" False show ?thesis
        by (simp add: str_nat.simps [of m] str_nat.simps [of n] str_nat_nonempty)
    next
      case n: False
      from "1.prems" False n have
        e: "str_nat (m div 10) = str_nat (n div 10)" and d: "digit_char (m mod 10) = digit_char (n mod 10)"
        by (simp_all add: str_nat.simps [of m] str_nat.simps [of n])
      from "1.IH" [OF False e] have "m div 10 = n div 10" .
      moreover from d have "m mod 10 = n mod 10" by (intro digit_char_inj) simp_all
      ultimately show ?thesis by (metis div_mult_mod_eq)
    qed
  qed
qed

lemma table_filename_inj: "table_filename a = table_filename b \<longleftrightarrow> a = b"
  by (auto simp add: table_filename_def dest: str_nat_inj)

lemma write_file_eq:
  "write_file d n c = (if is_dir d n then Inl IsADirectory else Inr (AList.update n (File c) d))"
  by (simp add: write_file_def is_dir_def split: option.splits entry.splits)

lemma is_dir_update: "\<not> is_dir d n \<Longrightarrow> is_dir (AList.update n (File c) d) m = is_dir d m"
  by (simp add: is_dir_def update_conv')

subsection \<open>The loop of the writer\<close>

lemma save_loop_11_is_dir:
  "is_dir (fst (save_loop_11 linesep ts idx (d, lg))) m = is_dir d m"
  by (induction ts arbitrary: idx d lg) (simp_all add: write_file_eq is_dir_update)

lemma save_loop_11_other:
  "\<forall>k < length ts. table_filename (idx + k) \<noteq> m \<Longrightarrow>
     map_of (fst (save_loop_11 linesep ts idx (d, lg))) m = map_of d m"
proof (induction ts arbitrary: idx d lg)
  case Nil
  then show ?case by simp
next
  case (Cons t ts)
  from Cons.prems have h: "table_filename idx \<noteq> m" by force
  from Cons.prems have t: "\<forall>k < length ts. table_filename (Suc idx + k) \<noteq> m" by force
  show ?case
    using h Cons.IH [OF t] by (simp add: write_file_eq update_conv')
qed

lemma save_loop_11_file:
  "k < length ts \<Longrightarrow> \<not> is_dir d (table_filename (idx + k)) \<Longrightarrow>
     map_of (fst (save_loop_11 linesep ts idx (d, lg))) (table_filename (idx + k)) =
       Some (File (to_csv linesep (rows (ts ! k))))"
proof (induction ts arbitrary: idx d lg k)
  case Nil
  then show ?case by simp
next
  case (Cons t ts)
  show ?case
  proof (cases k)
    case 0
    have "\<forall>j < length ts. table_filename (Suc idx + j) \<noteq> table_filename idx"
      by (simp add: table_filename_inj)
    from save_loop_11_other [OF this] Cons.prems 0 show ?thesis
      by (simp add: write_file_eq update_conv')
  next
    case (Suc k')
    with Cons.prems have k': "k' < length ts" and
      nd: "\<not> is_dir d (table_filename (Suc idx + k'))" by simp_all
    show ?thesis
    proof (cases "is_dir d (table_filename idx)")
      case True
      with Cons.IH [OF k', where d = d and idx = "Suc idx"] nd Suc show ?thesis
        by (simp add: write_file_eq)
    next
      case False
      let ?d = "AList.update (table_filename idx) (File (to_csv linesep (rows t))) d"
      have "\<not> is_dir ?d (table_filename (Suc idx + k'))"
        using nd False by (simp add: is_dir_update)
      with Cons.IH [OF k', where d = ?d and idx = "Suc idx"] False Suc show ?thesis
        by (simp add: write_file_eq)
    qed
  qed
qed

lemma save_loop_11_blocked:
  "is_dir d m \<Longrightarrow> map_of (fst (save_loop_11 linesep ts idx (d, lg))) m = map_of d m"
proof (induction ts arbitrary: idx d lg)
  case Nil
  then show ?case by simp
next
  case (Cons t ts)
  show ?case
  proof (cases "is_dir d (table_filename idx)")
    case True
    with Cons.IH [OF Cons.prems] show ?thesis by (simp add: write_file_eq)
  next
    case False
    let ?d = "AList.update (table_filename idx) (File (to_csv linesep (rows t))) d"
    from False Cons.prems have n: "table_filename idx \<noteq> m" by auto
    from False Cons.prems have "is_dir ?d m" by (simp add: is_dir_update)
    from Cons.IH [OF this] n False show ?thesis
      by (simp add: write_file_eq update_conv')
  qed
qed

lemma save_loop_10_dir:
  "fst (save_loop_10 linesep ts idx (d, c, lg)) = fst (save_loop_11 linesep ts idx (d, lg'))"
  by (induction ts arbitrary: idx d c lg lg') (simp_all split: sum.splits)

lemma save_loop_10_log:
  "snd (snd (save_loop_10 linesep ts idx (d, c, lg))) = snd (save_loop_11 linesep ts idx (d, lg))"
  by (induction ts arbitrary: idx d c lg) (simp_all split: sum.splits)

lemma save_loop_10_count:
  "fst (snd (save_loop_10 linesep ts idx (d, c, lg))) =
     c + length (filter (\<lambda>k. \<not> is_dir d (table_filename k)) [idx ..< idx + length ts])"
proof (induction ts arbitrary: idx d c lg)
  case Nil
  then show ?case by simp
next
  case (Cons t ts)
  have u: "[idx ..< idx + length (t # ts)] = idx # [Suc idx ..< Suc idx + length ts]"
    by (subst upt_rec) simp
  have f: "\<not> is_dir d (table_filename idx) \<Longrightarrow>
             filter (\<lambda>k. \<not> is_dir (AList.update (table_filename idx) (File (to_csv linesep (rows t))) d)
                            (table_filename k)) [Suc idx ..< Suc idx + length ts] =
             filter (\<lambda>k. \<not> is_dir d (table_filename k)) [Suc idx ..< Suc idx + length ts]"
    by (simp add: is_dir_update)
  show ?case
    unfolding u using f by (simp add: write_file_eq Cons.IH)
qed

lemma save_loop_11_rows:
  "map rows ts = map rows ts' \<Longrightarrow>
     fst (save_loop_11 linesep ts idx (d, lg)) = fst (save_loop_11 linesep ts' idx (d, lg'))"
proof (induction ts arbitrary: ts' idx d lg lg')
  case Nil
  then show ?case by simp
next
  case (Cons t ts)
  then obtain t' ts'' where ts': "ts' = t' # ts''" and r: "rows t = rows t'"
    and m: "map rows ts = map rows ts''" by (cases ts') auto
  show ?case
    unfolding ts' using r Cons.IH [OF m] by (simp split: sum.splits)
qed

lemma directory_11:
  "directory (save_tables_11 linesep ts out) =
     fst (save_loop_11 linesep ts 1 (makedirs out, [SavingTo]))"
  by (simp add: save_tables_11_def split: prod.splits)

lemma directory_10:
  "directory (save_tables_10 linesep ts out) =
     fst (save_loop_11 linesep ts 1 (makedirs out, [SavingTo]))"
proof -
  obtain d c lg where e: "save_loop_10 linesep ts 1 (makedirs out, 0, [SavingTo]) = (d, c, lg)"
    by (cases "save_loop_10 linesep ts 1 (makedirs out, 0, [SavingTo])")
  from save_loop_10_dir [where linesep = linesep and ts = ts and idx = 1 and d = "makedirs out"
      and c = 0 and lg = "[SavingTo]" and lg' = "[SavingTo]"] e
  have "d = fst (save_loop_11 linesep ts 1 (makedirs out, [SavingTo]))" by simp
  with e show ?thesis by (simp add: save_tables_10_def)
qed

lemma written_file:
  assumes "k < length ts" and "\<not> is_dir (makedirs out) (table_filename (Suc k))"
  shows "map_of (directory (save_tables_10 linesep ts out)) (table_filename (Suc k)) =
           Some (File (to_csv linesep (rows (ts ! k))))"
    and "map_of (directory (save_tables_11 linesep ts out)) (table_filename (Suc k)) =
           Some (File (to_csv linesep (rows (ts ! k))))"
  using save_loop_11_file [where k = k and ts = ts and d = "makedirs out" and idx = 1
      and lg = "[SavingTo]" and linesep = linesep] assms
  by (simp_all add: directory_10 directory_11)

lemma blocked_file:
  assumes "is_dir (makedirs out) m"
  shows "map_of (directory (save_tables_10 linesep ts out)) m = map_of (makedirs out) m"
    and "map_of (directory (save_tables_11 linesep ts out)) m = map_of (makedirs out) m"
  using save_loop_11_blocked [OF assms] by (simp_all add: directory_10 directory_11)

subsection \<open>The lines of the log\<close>

lemma logged_11:
  "logged (save_tables_11 linesep ts out) =
     snd (save_loop_11 linesep ts 1 (makedirs out, [SavingTo]))"
  by (simp add: save_tables_11_def split: prod.splits)

lemma logged_10:
  "logged (save_tables_10 linesep ts out) =
     logged (save_tables_11 linesep ts out) @
       [SavedOutOf
          (length (filter (\<lambda>k. \<not> is_dir (makedirs out) (table_filename k)) [1 ..< Suc (length ts)]))
          (length ts)]"
proof -
  obtain d c lg where e: "save_loop_10 linesep ts 1 (makedirs out, 0, [SavingTo]) = (d, c, lg)"
    by (cases "save_loop_10 linesep ts 1 (makedirs out, 0, [SavingTo])")
  from save_loop_10_count [where linesep = linesep and ts = ts and idx = 1 and d = "makedirs out"
      and c = 0 and lg = "[SavingTo]"] e
  have c: "c = length (filter (\<lambda>k. \<not> is_dir (makedirs out) (table_filename k)) [1 ..< Suc (length ts)])"
    by simp
  from save_loop_10_log [where linesep = linesep and ts = ts and idx = 1 and d = "makedirs out"
      and c = 0 and lg = "[SavingTo]"] e
  have l: "lg = snd (save_loop_11 linesep ts 1 (makedirs out, [SavingTo]))" by simp
  show ?thesis
    unfolding logged_11 using e c l by (simp add: save_tables_10_def)
qed



lemma save_loop_11_log_mono:
  "e \<in> set lg \<Longrightarrow> e \<in> set (snd (save_loop_11 linesep ts idx (d, lg)))"
  by (induction ts arbitrary: idx d lg) (simp_all split: sum.splits)

lemma save_loop_11_log_error:
  "k < length ts \<Longrightarrow> is_dir d (table_filename (idx + k)) \<Longrightarrow>
     ErrorSaving (idx + k) IsADirectory \<in> set (snd (save_loop_11 linesep ts idx (d, lg)))"
proof (induction ts arbitrary: idx d lg k)
  case Nil
  then show ?case by simp
next
  case (Cons t ts)
  show ?case
  proof (cases k)
    case 0
    with Cons.prems have b: "is_dir d (table_filename idx)" by simp
    have "ErrorSaving idx IsADirectory \<in> set (lg @ [ErrorSaving idx IsADirectory])" by simp
    from save_loop_11_log_mono [OF this] b 0 show ?thesis
      by (simp add: write_file_eq)
  next
    case (Suc k')
    with Cons.prems have k': "k' < length ts" and
      b: "is_dir d (table_filename (Suc idx + k'))" by simp_all
    show ?thesis
    proof (cases "is_dir d (table_filename idx)")
      case True
      with Cons.IH [OF k', where d = d and idx = "Suc idx"] b Suc show ?thesis
        by (simp add: write_file_eq)
    next
      case False
      let ?d = "AList.update (table_filename idx) (File (to_csv linesep (rows t))) d"
      have "is_dir ?d (table_filename (Suc idx + k'))"
        using b False by (simp add: is_dir_update)
      with Cons.IH [OF k', where d = ?d and idx = "Suc idx"] False Suc show ?thesis
        by (simp add: write_file_eq)
    qed
  qed
qed

lemma save_loop_11_log_saved:
  "is_dir d m \<Longrightarrow> Saved title m \<notin> set lg \<Longrightarrow>
     Saved title m \<notin> set (snd (save_loop_11 linesep ts idx (d, lg)))"
proof (induction ts arbitrary: idx d lg)
  case Nil
  then show ?case by simp
next
  case (Cons t ts)
  show ?case
  proof (cases "is_dir d (table_filename idx)")
    case True
    from Cons.prems(2) have "Saved title m \<notin> set (lg @ [ErrorSaving idx IsADirectory])" by simp
    from Cons.IH [OF Cons.prems(1) this] True show ?thesis by (simp add: write_file_eq)
  next
    case False
    let ?d = "AList.update (table_filename idx) (File (to_csv linesep (rows t))) d"
    from False Cons.prems(1) have n: "table_filename idx \<noteq> m" by auto
    from False Cons.prems(1) have b: "is_dir ?d m" by (simp add: is_dir_update)
    from Cons.prems(2) n have
      "Saved title m \<notin> set (lg @ [Saved (table_title t) (table_filename idx)])" by simp
    from Cons.IH [OF b this] False show ?thesis by (simp add: write_file_eq)
  qed
qed

section \<open>What the writer returns\<close>




section \<open>The text of a written file\<close>

subsection \<open>Reading back what the writer wrote\<close>

lemma needs_quote_special: "needs_quote f \<longleftrightarrow> (\<exists>c \<in> set f. special c)"
  by (simp add: needs_quote_def special_def)

lemma char_distinct [simp]:
  "comma \<noteq> dquote" "comma \<noteq> cr" "comma \<noteq> lf" "dquote \<noteq> cr" "dquote \<noteq> lf" "cr \<noteq> lf"
  "dquote \<noteq> comma" "cr \<noteq> comma" "lf \<noteq> comma" "cr \<noteq> dquote" "lf \<noteq> dquote" "lf \<noteq> cr"
  by (simp_all add: comma_def dquote_def cr_def lf_def)

lemma reader_InField_end:
  "ends_field rest \<Longrightarrow> reader InField field acc rest = field_end field acc rest"
  by (cases rest) (auto simp add: ends_field_def field_end_def)

lemma reader_Quote_end:
  "ends_field rest \<Longrightarrow> reader QuoteInQuotedField field acc rest = field_end field acc rest"
  by (cases rest) (auto simp add: ends_field_def field_end_def)

lemma reader_StartField_end:
  "ends_field rest \<Longrightarrow> reader StartField [] acc rest = field_end [] acc rest"
  by (cases rest) (auto simp add: ends_field_def field_end_def)

lemma reader_plain:
  "\<forall>c \<in> set f. \<not> special c \<Longrightarrow>
     reader InField field acc (f @ rest) = reader InField (field @ f) acc rest"
  by (induction f arbitrary: field) (simp_all add: special_def)

lemma reader_quoted:
  "reader InQuotedField field acc (double_quotes f @ dquote # rest) =
     reader QuoteInQuotedField (field @ f) acc rest"
  by (induction f arbitrary: field) simp_all

lemma reader_field:
  assumes "ends_field rest"
  shows "reader StartField [] acc (csv_field f @ rest) = field_end f acc rest"
proof (cases "needs_quote f")
  case True
  then show ?thesis
    using assms reader_quoted [of "[]" acc f rest]
    by (simp add: csv_field_def reader_Quote_end)
next
  case False
  show ?thesis
  proof (cases f)
    case Nil
    with False assms show ?thesis by (simp add: csv_field_def reader_StartField_end)
  next
    case (Cons c f')
    with False have p: "\<forall>x \<in> set f'. \<not> special x" and c: "\<not> special c"
      by (simp_all add: needs_quote_special)
    from c have "reader StartField [] acc (c # f' @ rest) = reader InField [c] acc (f' @ rest)"
      by (simp add: special_def)
    with reader_plain [OF p, of "[c]" acc rest] assms False Cons show ?thesis
      by (simp add: csv_field_def reader_InField_end)
  qed
qed


lemma reader_fields:
  "fs \<noteq> [] \<Longrightarrow> ends_field rest \<Longrightarrow>
     reader StartField [] acc (join_fields (map csv_field fs) @ rest) =
       field_end (last fs) (acc @ butlast fs) rest"
proof (induction fs arbitrary: acc)
  case Nil
  then show ?case by simp
next
  case (Cons f fs)
  show ?case
  proof (cases fs)
    case Nil
    with Cons.prems show ?thesis by (simp add: reader_field)
  next
    case (Cons g gs)
    have e: "ends_field (comma # join_fields (map csv_field (g # gs)) @ rest)"
      by (simp add: ends_field_def)
    have "reader StartField [] acc (join_fields (map csv_field (f # g # gs)) @ rest) =
            reader StartField [] (acc @ [f]) (join_fields (map csv_field (g # gs)) @ rest)"
      using reader_field [OF e, of acc f] by (simp add: field_end_def)
    also have "\<dots> = field_end (last (g # gs)) ((acc @ [f]) @ butlast (g # gs)) rest"
      using Cons.IH [of "acc @ [f]"] Cons.prems(2) Cons by simp
    finally show ?thesis using Cons by simp
  qed
qed

lemma csv_field_first:
  "csv_field f = [] \<and> f = [] \<or> (\<exists>c t. csv_field f = c # t \<and> c \<noteq> cr \<and> c \<noteq> lf \<and> f \<noteq> [])"
proof (cases "needs_quote f")
  case True
  then have "f \<noteq> []" by (auto simp add: needs_quote_def)
  with True show ?thesis by (simp add: csv_field_def)
next
  case False
  then show ?thesis
    by (cases f) (auto simp add: csv_field_def needs_quote_def)
qed

lemma join_fields_first:
  assumes "fs \<noteq> []" and "fs \<noteq> [[]]"
  shows "\<exists>c t. join_fields (map csv_field fs) = c # t \<and> c \<noteq> cr \<and> c \<noteq> lf"
proof (cases fs)
  case Nil
  with assms show ?thesis by simp
next
  case (Cons f gs)
  show ?thesis
  proof (cases gs)
    case Nil
    with Cons assms have "f \<noteq> []" by simp
    with csv_field_first [of f] Cons Nil show ?thesis by auto
  next
    case (Cons g hs)
    with csv_field_first [of f] \<open>fs = f # gs\<close> show ?thesis by auto
  qed
qed

lemma reader_StartRecord_StartField:
  "c \<noteq> cr \<Longrightarrow> c \<noteq> lf \<Longrightarrow> reader StartRecord [] [] (c # t) = reader StartField [] [] (c # t)"
  by simp

lemma field_end_linesep:
  assumes "linesep = [lf] \<or> linesep = [cr, lf]"
  shows "field_end f fs (linesep @ rest) = (fs @ [f]) # reader StartRecord [] [] rest"
    and "ends_field (linesep @ rest)"
  using assms by (auto simp add: field_end_def ends_field_def)

lemma reader_row:
  assumes "linesep = [lf] \<or> linesep = [cr, lf]"
  shows "reader StartRecord [] [] (csv_row row @ linesep @ rest) = row # reader StartRecord [] [] rest"
proof (cases "row = []")
  case True
  with assms show ?thesis by (auto simp add: csv_row_def)
next
  case False
  show ?thesis
  proof (cases "row = [[]]")
    case True
    with assms show ?thesis by (auto simp add: csv_row_def)
  next
    case single: False
    from join_fields_first [OF False single] obtain c t where
      ct: "join_fields (map csv_field row) = c # t" and c: "c \<noteq> cr" "c \<noteq> lf" by blast
    have "reader StartRecord [] [] (join_fields (map csv_field row) @ linesep @ rest) =
          reader StartField [] [] (join_fields (map csv_field row) @ linesep @ rest)"
      unfolding ct using c by simp
    also have "\<dots> = field_end (last row) ([] @ butlast row) (linesep @ rest)"
      by (rule reader_fields [OF False field_end_linesep(2) [OF assms]])
    also have "\<dots> = row # reader StartRecord [] [] rest"
      using False by (simp add: field_end_linesep(1) [OF assms])
    finally show ?thesis using single by (simp add: csv_row_def)
  qed
qed

lemma csv_round_trip:
  assumes "linesep = [lf] \<or> linesep = [cr, lf]"
  shows "csv_reader (csv_text linesep rs) = rs"
proof -
  have "reader StartRecord [] [] (csv_text linesep rs) = rs"
    by (induction rs) (simp_all add: csv_text_def reader_row [OF assms])
  then show ?thesis by (simp add: csv_reader_def)
qed

subsection \<open>The lines of the text\<close>

lemma physical_lines_plain:
  "\<not> has_line_break l \<Longrightarrow>
     physical_lines False line (l @ rest) = physical_lines False (line @ l) rest"
  by (induction l arbitrary: line) (auto simp add: has_line_break_def)

lemma physical_lines_linesep:
  assumes "linesep = [lf] \<or> linesep = [cr, lf]"
  shows "physical_lines False line (linesep @ rest) = line # physical_lines False [] rest"
  using assms by auto

lemma physical_lines_concat:
  assumes "linesep = [lf] \<or> linesep = [cr, lf]" and "\<forall>l \<in> set ls. \<not> has_line_break l"
  shows "physical_lines False [] (concat (map (\<lambda>l. l @ linesep) ls)) = ls"
  using assms(2)
proof (induction ls)
  case Nil
  then show ?case by simp
next
  case (Cons l ls)
  then have l: "\<not> has_line_break l" and r: "\<forall>l \<in> set ls. \<not> has_line_break l" by simp_all
  have "physical_lines False [] (l @ linesep @ concat (map (\<lambda>l. l @ linesep) ls)) =
          physical_lines False l (linesep @ concat (map (\<lambda>l. l @ linesep) ls))"
    using physical_lines_plain [OF l, where line = "[]"] by simp
  also have "\<dots> = l # physical_lines False [] (concat (map (\<lambda>l. l @ linesep) ls))"
    by (rule physical_lines_linesep [OF assms(1)])
  finally show ?case using Cons.IH [OF r] by simp
qed

lemma double_quotes_set: "set (double_quotes f) \<subseteq> insert dquote (set f)"
  by (induction f) auto

lemma csv_field_set: "set (csv_field f) \<subseteq> insert dquote (set f)"
  using double_quotes_set [of f] by (auto simp add: csv_field_def)

lemma join_fields_set: "set (join_fields fs) \<subseteq> insert comma (\<Union> (set ` set fs))"
  by (induction fs rule: join_fields.induct) auto

lemma csv_row_set: "set (csv_row fs) \<subseteq> insert comma (insert dquote (\<Union> (set ` set fs)))"
proof (cases "fs = [[]]")
  case True
  then show ?thesis by (simp add: csv_row_def)
next
  case False
  have "set (join_fields (map csv_field fs)) \<subseteq> insert comma (\<Union> (set ` set (map csv_field fs)))"
    by (rule join_fields_set)
  also have "\<dots> \<subseteq> insert comma (insert dquote (\<Union> (set ` set fs)))"
    using csv_field_set by fastforce
  finally show ?thesis using False by (simp add: csv_row_def)
qed

lemma csv_row_line:
  assumes "\<forall>f \<in> set fs. \<not> has_line_break f"
  shows "\<not> has_line_break (csv_row fs)"
proof -
  from assms have "cr \<notin> \<Union> (set ` set fs)" and "lf \<notin> \<Union> (set ` set fs)"
    by (auto simp add: has_line_break_def)
  with csv_row_set [of fs] show ?thesis
    by (auto simp add: has_line_break_def)
qed

lemma lines_of_csv_text:
  assumes "linesep = [lf] \<or> linesep = [cr, lf]"
    and "\<forall>fs \<in> set rs. \<forall>f \<in> set fs. \<not> has_line_break f"
  shows "lines_of (csv_text linesep rs) = map csv_row rs"
proof -
  have "\<forall>l \<in> set (map csv_row rs). \<not> has_line_break l"
    using assms(2) csv_row_line by fastforce
  from physical_lines_concat [OF assms(1) this] show ?thesis
    by (simp add: lines_of_def csv_text_def comp_def)
qed

section \<open>The rows of a frame\<close>

lemma fold_unseen_subset:
  "set xs \<subseteq> set seen \<Longrightarrow>
     fold (\<lambda>k seen. if k \<in> set seen then seen else seen @ [k]) xs seen = seen"
  by (induction xs) simp_all

lemma fold_unseen_disjoint:
  "distinct xs \<Longrightarrow> set xs \<inter> set seen = {} \<Longrightarrow>
     fold (\<lambda>k seen. if k \<in> set seen then seen else seen @ [k]) xs seen = seen @ xs"
  by (induction xs arbitrary: seen) auto

lemma fold_unseen_distinct:
  "distinct seen \<Longrightarrow>
     distinct (fold (\<lambda>k seen. if k \<in> set seen then seen else seen @ [k]) xs seen)"
  by (induction xs arbitrary: seen) simp_all

lemma fold_unseen_set:
  "set (fold (\<lambda>k seen. if k \<in> set seen then seen else seen @ [k]) xs seen) = set seen \<union> set xs"
  by (induction xs arbitrary: seen) auto

lemma first_occurrences_distinct: "distinct (first_occurrences xs)"
  by (simp add: first_occurrences_def fold_unseen_distinct)

lemma first_occurrences_set: "set (first_occurrences xs) = set xs"
  by (simp add: first_occurrences_def fold_unseen_set)

lemma first_occurrences_id: "distinct xs \<Longrightarrow> first_occurrences xs = xs"
  using fold_unseen_disjoint [of xs "[]"] by (simp add: first_occurrences_def)

lemma frame_columns_same_keys:
  assumes "rs \<noteq> []" and "\<forall>r \<in> set rs. map fst r = cols" and "distinct cols"
  shows "frame_columns rs = cols"
proof -
  from assms(1) obtain r rs' where rs: "rs = r # rs'" by (cases rs) auto
  with assms(2) have r: "map fst r = cols" and rest: "\<forall>r \<in> set rs'. map fst r = cols" by simp_all
  then have sub: "set (concat (map (map fst) rs')) \<subseteq> set cols" by auto
  have "frame_columns rs =
          fold (\<lambda>k seen. if k \<in> set seen then seen else seen @ [k]) (concat (map (map fst) rs'))
            (fold (\<lambda>k seen. if k \<in> set seen then seen else seen @ [k]) cols [])"
    by (simp add: frame_columns_def first_occurrences_def rs r)
  also have "fold (\<lambda>k seen. if k \<in> set seen then seen else seen @ [k]) cols [] = cols"
    using fold_unseen_disjoint [OF assms(3), of "[]"] by simp
  also have "fold (\<lambda>k seen. if k \<in> set seen then seen else seen @ [k]) (concat (map (map fst) rs')) cols = cols"
    by (rule fold_unseen_subset [OF sub])
  finally show ?thesis .
qed

lemma frame_line_own_keys:
  "distinct (map fst r) \<Longrightarrow> frame_line (map fst r) r = map snd r"
proof (induction r)
  case Nil
  then show ?case by (simp add: frame_line_def)
next
  case (Cons p r)
  obtain k v where p: "p = (k, v)" by (cases p)
  from Cons.prems p have k: "k \<notin> set (map fst r)" and d: "distinct (map fst r)" by simp_all
  have "map (\<lambda>c. case map_of (p # r) c of Some v \<Rightarrow> v | None \<Rightarrow> []) (map fst r) =
        map (\<lambda>c. case map_of r c of Some v \<Rightarrow> v | None \<Rightarrow> []) (map fst r)"
    using k p by (intro map_cong) auto
  with Cons.IH [OF d] p show ?case by (simp add: frame_line_def)
qed

lemma frame_rows_same_keys:
  assumes "rs \<noteq> []" and "\<forall>r \<in> set rs. map fst r = cols" and "distinct cols"
  shows "frame_rows rs = cols # map (map snd) rs"
proof -
  have "map (frame_line cols) rs = map (map snd) rs"
    using assms(2,3) by (intro map_cong) (auto simp add: frame_line_own_keys [symmetric])
  then show ?thesis
    by (simp add: frame_rows_def frame_columns_same_keys [OF assms])
qed

lemma frame_rows_Nil: "frame_rows [] = [[]]"
  by (simp add: frame_rows_def frame_columns_def first_occurrences_def)

lemma to_csv_Nil: "to_csv linesep [] = linesep"
  by (simp add: to_csv_def frame_rows_Nil csv_text_def csv_row_def)

lemma read_to_csv:
  assumes "linesep = [lf] \<or> linesep = [cr, lf]"
  shows "csv_reader (to_csv linesep rs) = frame_rows rs"
  unfolding to_csv_def by (rule csv_round_trip [OF assms])

lemma zip_own_keys:
  assumes "\<forall>r \<in> set rs. map fst r = cols"
  shows "map (zip cols) (map (map snd) rs) = rs"
proof -
  have "map (\<lambda>r. zip cols (map snd r)) rs = map (\<lambda>r. r) rs"
  proof (intro map_cong refl)
    fix r assume "r \<in> set rs"
    with assms have "cols = map fst r" by simp
    then show "zip cols (map snd r) = r" by (simp add: zip_map_fst_snd)
  qed
  then show ?thesis by (simp add: comp_def)
qed

section \<open>The keys of the extracted records\<close>

lemma dict_update_keys:
  "map fst (dict_update d kvs) =
     fold (\<lambda>k seen. if k \<in> set seen then seen else seen @ [k]) (map fst kvs) (map fst d)"
proof (induction kvs arbitrary: d)
  case Nil
  then show ?case by (simp add: dict_update_def)
next
  case (Cons p kvs)
  obtain k v where p: "p = (k, v)" by (cases p)
  have "dict_update d (p # kvs) = dict_update (AList.update k v d) kvs"
    by (simp add: dict_update_def p)
  with Cons.IH [of "AList.update k v d"] p show ?case
    by (simp add: update_keys image_iff)
qed

lemma row_record_keys:
  assumes "length hs \<le> length cs"
  shows "map fst (dict_update (dict_update [] (zip hs cs)) (synthetic_fields w u t)) =
           first_occurrences (hs @ [''week_info'', ''source_url'', ''table_title''])"
proof -
  have z: "map fst (zip hs cs) = hs"
    using assms by (simp add: map_fst_zip_take)
  have s: "map fst (synthetic_fields w u t) = [''week_info'', ''source_url'', ''table_title'']"
    by (simp add: synthetic_fields_def)
  show ?thesis
    by (simp only: dict_update_keys z s first_occurrences_def fold_append comp_def list.map)
qed

lemma extracted_record_keys:
  assumes "t \<in> set (extract_tables_10 doc url) \<or> t \<in> set (extract_tables_11 doc url)"
    and "r \<in> set (rows t)"
  shows "map fst r = first_occurrences (headers t)"
proof -
  from extract_tables_mem [OF assms(1)] obtain i j where
    p: "process_table_10 (flatten doc) url (week_info_of (flatten doc) i) j = Inr t \<or>
        process_table_11 (flatten doc) url (week_info_of (flatten doc) i) j = Inr t"
    by blast
  note f = process_table_Inr [OF p]
  from assms(2) obtain x where
    x: "length (headers_of (flatten doc) j) \<le> length (cells_of (flatten doc) x)" and
    r: "r = dict_update (dict_update [] (zip (headers_of (flatten doc) j) (cells_of (flatten doc) x)))
              (synthetic_fields (week_info_of (flatten doc) i) url (table_title_of (flatten doc) j))"
    unfolding f(2) table_data_10_eq by auto
  from row_record_keys [OF x] show ?thesis
    by (simp only: r f(3))
qed

section \<open>Reading the written files back\<close>

text \<open>
  Claim C6 says that the first line of each file is the table's columns and that each
  further line is one record's values. The writer never reads the columns of the table.
  For a table without records it writes the line terminator only, and the file read back
  has one row without fields. For a table whose header row repeats a label it writes the
  label once. For a record with a line feed inside a value it writes the value in double
  quotes with the line feed in it, so the record takes two lines of the file.
\<close>

theorem header_line_counterexample:
  "map headers (extract_tables_11 header_only_doc ''u'') =
     [[''A'', ''week_info'', ''source_url'', ''table_title'']] \<and>
   directory (save_tables_11 ''\<newline>'' (extract_tables_11 header_only_doc ''u'') None) =
     [(''table_1.csv'', File ''\<newline>'')] \<and>
   csv_reader ''\<newline>'' = [[]] \<and>
   map headers (extract_tables_11 dup_header_doc ''u'') =
     [[''A'', ''A'', ''week_info'', ''source_url'', ''table_title'']] \<and>
   directory (save_tables_11 ''\<newline>'' (extract_tables_11 dup_header_doc ''u'') None) =
     [(''table_1.csv'',
       File ''A,week_info,source_url,table_title\<newline>2,Unknown Week,u,Untitled Table\<newline>'')] \<and>
   map rows (extract_tables_11 linefeed_doc ''u'') =
     [[[(''A'', ''x\<newline>y''), (''week_info'', ''Unknown Week''),
        (''source_url'', ''u''), (''table_title'', ''Untitled Table'')]]] \<and>
   directory (save_tables_11 ''\<newline>'' (extract_tables_11 linefeed_doc ''u'') None) =
     [(''table_1.csv'',
       File (''A,week_info,source_url,table_title\<newline>'' @ [dquote] @ ''x\<newline>y'' @ [dquote] @
             '',Unknown Week,u,Untitled Table\<newline>''))] \<and>
   lines_of (''A,week_info,source_url,table_title\<newline>'' @ [dquote] @ ''x\<newline>y'' @ [dquote] @
             '',Unknown Week,u,Untitled Table\<newline>'') =
     [''A,week_info,source_url,table_title'', dquote # ''x'',
      ''y'' @ [dquote] @ '',Unknown Week,u,Untitled Table'']"
  by code_simp

text \<open>
  Claim C6, as the code has it. Take a table \<open>t\<close> that either version of the extractor
  returns, at place \<open>k\<close> of the snapshot, whose path in the output directory is not taken
  by a directory, and let the line terminator be a line feed, alone or after a carriage
  return. Both versions write the same text to the file of \<open>t\<close>. If \<open>t\<close> has no record,
  the text is the line terminator and reads back as one row without fields. If \<open>t\<close> has
  a record, the text reads back as the columns of \<open>t\<close>, each label at its first
  occurrence only, followed by the values of each record in that order; no label is
  repeated in the first row, and pairing the first row with each further row gives the
  records back. When the columns of \<open>t\<close> are distinct, the first row is the columns of
  \<open>t\<close>. When moreover no column and no value has a line break in it, the lines of the
  text are the line of the columns and then one line for each record, in order.
\<close>

theorem written_file_round_trip:
  assumes "linesep = [lf] \<or> linesep = [cr, lf]"
    and "ts = extract_tables_10 doc url \<or> ts = extract_tables_11 doc url"
    and "k < length ts"
    and "t = ts ! k"
    and "\<not> is_dir (makedirs out) (table_filename (Suc k))"
    and "text = to_csv linesep (rows t)"
  shows "map_of (directory (save_tables_10 linesep ts out)) (table_filename (Suc k)) =
           Some (File text) \<and>
         map_of (directory (save_tables_11 linesep ts out)) (table_filename (Suc k)) =
           Some (File text) \<and>
         (rows t = [] \<longrightarrow> text = linesep \<and> csv_reader text = [[]]) \<and>
         (rows t \<noteq> [] \<longrightarrow>
            csv_reader text = first_occurrences (headers t) # map (map snd) (rows t) \<and>
            distinct (hd (csv_reader text)) \<and>
            map (zip (hd (csv_reader text))) (tl (csv_reader text)) = rows t) \<and>
         (distinct (headers t) \<longrightarrow> first_occurrences (headers t) = headers t) \<and>
         (rows t \<noteq> [] \<and> (\<forall>h \<in> set (headers t). \<not> has_line_break h) \<and>
          (\<forall>r \<in> set (rows t). \<forall>v \<in> set (map snd r). \<not> has_line_break v) \<longrightarrow>
            lines_of text =
              csv_row (first_occurrences (headers t)) # map (\<lambda>r. csv_row (map snd r)) (rows t))"
proof -
  let ?cols = "first_occurrences (headers t)"
  from assms(2,3,4) have mem:
    "t \<in> set (extract_tables_10 doc url) \<or> t \<in> set (extract_tables_11 doc url)"
    by auto
  have keys: "\<forall>r \<in> set (rows t). map fst r = ?cols"
    using extracted_record_keys [OF mem] by blast
  have read: "csv_reader text = frame_rows (rows t)"
    unfolding assms(6) by (rule read_to_csv [OF assms(1)])
  have frame: "rows t \<noteq> [] \<Longrightarrow> frame_rows (rows t) = ?cols # map (map snd) (rows t)"
    by (rule frame_rows_same_keys [OF _ keys first_occurrences_distinct])
  have a: "map_of (directory (save_tables_10 linesep ts out)) (table_filename (Suc k)) =
             Some (File text)"
    unfolding assms(6) assms(4) by (rule written_file(1) [OF assms(3,5)])
  have b: "map_of (directory (save_tables_11 linesep ts out)) (table_filename (Suc k)) =
             Some (File text)"
    unfolding assms(6) assms(4) by (rule written_file(2) [OF assms(3,5)])
  have c: "rows t = [] \<longrightarrow> text = linesep \<and> csv_reader text = [[]]"
  proof
    assume e: "rows t = []"
    have "text = linesep" by (simp add: assms(6) e to_csv_Nil)
    moreover have "csv_reader text = [[]]" by (simp add: read e frame_rows_Nil)
    ultimately show "text = linesep \<and> csv_reader text = [[]]" by simp
  qed
  have d: "rows t \<noteq> [] \<longrightarrow>
            csv_reader text = ?cols # map (map snd) (rows t) \<and>
            distinct (hd (csv_reader text)) \<and>
            map (zip (hd (csv_reader text))) (tl (csv_reader text)) = rows t"
  proof
    assume n: "rows t \<noteq> []"
    have r: "csv_reader text = ?cols # map (map snd) (rows t)"
      by (simp only: read frame [OF n])
    have z: "map (zip ?cols) (map (map snd) (rows t)) = rows t"
      by (rule zip_own_keys [OF keys])
    show "csv_reader text = ?cols # map (map snd) (rows t) \<and>
            distinct (hd (csv_reader text)) \<and>
            map (zip (hd (csv_reader text))) (tl (csv_reader text)) = rows t"
      by (simp only: r list.sel z first_occurrences_distinct simp_thms)
  qed
  have e: "distinct (headers t) \<longrightarrow> ?cols = headers t"
    by (simp add: first_occurrences_id)
  have f: "rows t \<noteq> [] \<and> (\<forall>h \<in> set (headers t). \<not> has_line_break h) \<and>
          (\<forall>r \<in> set (rows t). \<forall>v \<in> set (map snd r). \<not> has_line_break v) \<longrightarrow>
            lines_of text = csv_row ?cols # map (\<lambda>r. csv_row (map snd r)) (rows t)"
  proof
    assume h: "rows t \<noteq> [] \<and> (\<forall>h \<in> set (headers t). \<not> has_line_break h) \<and>
          (\<forall>r \<in> set (rows t). \<forall>v \<in> set (map snd r). \<not> has_line_break v)"
    then have n: "rows t \<noteq> []" by simp
    from h have "\<forall>fs \<in> set (?cols # map (map snd) (rows t)). \<forall>f \<in> set fs. \<not> has_line_break f"
      by (auto simp add: first_occurrences_set)
    from lines_of_csv_text [OF assms(1) this]
    show "lines_of text = csv_row ?cols # map (\<lambda>r. csv_row (map snd r)) (rows t)"
      by (simp add: assms(6) to_csv_def frame [OF n] comp_def)
  qed
  show ?thesis
    by (intro conjI) (rule a b c d e f)+
qed

theorem written_file_round_trip_witness:
  "0 < length (extract_tables_11 two_table_doc ''u'') \<and>
   \<not> is_dir (makedirs None) (table_filename (Suc 0)) \<and>
   rows (extract_tables_11 two_table_doc ''u'' ! 0) \<noteq> [] \<and>
   distinct (headers (extract_tables_11 two_table_doc ''u'' ! 0)) \<and>
   map_of (directory (save_tables_11 ''\<newline>'' (extract_tables_11 two_table_doc ''u'') None))
     ''table_1.csv'' =
     Some (File ''C,week_info,source_url,table_title\<newline>4,Unknown Week,u,Untitled Table\<newline>'') \<and>
   csv_reader ''C,week_info,source_url,table_title\<newline>4,Unknown Week,u,Untitled Table\<newline>'' =
     [[''C'', ''week_info'', ''source_url'', ''table_title''],
      [''4'', ''Unknown Week'', ''u'', ''Untitled Table'']] \<and>
   lines_of ''C,week_info,source_url,table_title\<newline>4,Unknown Week,u,Untitled Table\<newline>'' =
     [''C,week_info,source_url,table_title'', ''4,Unknown Week,u,Untitled Table'']"
proof -
  let ?ts = "extract_tables_11 two_table_doc ''u''"
  let ?t = "\<lparr> headers = [''C'', ''week_info'', ''source_url'', ''table_title''],
        rows = [[(''C'', ''4''), (''week_info'', ''Unknown Week''),
                 (''source_url'', ''u''), (''table_title'', ''Untitled Table'')]],
        table_title = ''Untitled Table'' \<rparr>"
  let ?text = "''C,week_info,source_url,table_title\<newline>4,Unknown Week,u,Untitled Table\<newline>''"
  have e: "?ts = [?t]" by code_simp
  have l: "''\<newline>'' = [lf] \<or> ''\<newline>'' = [cr, lf]" by (simp add: lf_def)
  have s: "?ts = extract_tables_10 two_table_doc ''u'' \<or> ?ts = extract_tables_11 two_table_doc ''u''"
    by simp
  have a: "0 < length ?ts" by (simp add: e)
  have t: "?t = ?ts ! 0" by (simp add: e)
  have b: "\<not> is_dir (makedirs None) (table_filename (Suc 0))" by (simp add: is_dir_def makedirs_def)
  have x: "?text = to_csv ''\<newline>'' (rows ?t)" by code_simp
  have c: "rows (?ts ! 0) \<noteq> []" by (simp add: e)
  have d: "distinct (headers (?ts ! 0))" by (simp add: e)
  have n: "table_filename (Suc 0) = ''table_1.csv''" by code_simp
  have ne: "rows ?t \<noteq> []" by simp
  have nb: "rows ?t \<noteq> [] \<and> (\<forall>h \<in> set (headers ?t). \<not> has_line_break h) \<and>
          (\<forall>r \<in> set (rows ?t). \<forall>v \<in> set (map snd r). \<not> has_line_break v)"
    by code_simp
  have re: "first_occurrences (headers ?t) # map (map snd) (rows ?t) =
              [[''C'', ''week_info'', ''source_url'', ''table_title''],
               [''4'', ''Unknown Week'', ''u'', ''Untitled Table'']]"
    by code_simp
  have li: "csv_row (first_occurrences (headers ?t)) # map (\<lambda>r. csv_row (map snd r)) (rows ?t) =
              [''C,week_info,source_url,table_title'', ''4,Unknown Week,u,Untitled Table'']"
    by code_simp
  note w = written_file_round_trip [OF l s a t b x]
  note w2 = conjunct1 [OF conjunct2 [OF w]]
  note w4 = conjunct1 [OF conjunct2 [OF conjunct2 [OF conjunct2 [OF w]]]]
  note w6 = conjunct2 [OF conjunct2 [OF conjunct2 [OF conjunct2 [OF conjunct2 [OF w]]]]]
  have f: "map_of (directory (save_tables_11 ''\<newline>'' ?ts None)) ''table_1.csv'' = Some (File ?text)"
    using w2 by (simp only: n)
  have r: "csv_reader ?text =
     [[''C'', ''week_info'', ''source_url'', ''table_title''],
      [''4'', ''Unknown Week'', ''u'', ''Untitled Table'']]"
    using conjunct1 [OF mp [OF w4 ne]] by (simp only: re)
  have g: "lines_of ?text =
     [''C,week_info,source_url,table_title'', ''4,Unknown Week,u,Untitled Table'']"
    using mp [OF w6 nb] by (simp only: li)
  show ?thesis
    by (intro conjI) (rule a b c d f r g)+
qed

section \<open>The file of a table without records\<close>

text \<open>
  Claim C9 says that the writer produces a file for every table without records. It does
  not when the path of the file is taken by a directory: the write raises, the error is
  logged, and no file is produced.
\<close>

theorem blocked_path_counterexample:
  "map rows (extract_tables_11 header_only_doc ''u'') = [[]] \<and>
   save_tables_11 ''\<newline>'' (extract_tables_11 header_only_doc ''u'')
       (Some [(''table_1.csv'', Dir [])]) =
     \<lparr> returned = PyNone,
       directory = [(''table_1.csv'', Dir [])],
       logged = [SavingTo, ErrorSaving 1 IsADirectory] \<rparr>"
  by code_simp

text \<open>
  Claim C9, as the code has it. Take a table without records, at place \<open>k\<close> of the
  snapshot. When its path in the output directory is not taken by a directory, both
  versions write a file that holds the line terminator and nothing else: no column is
  named in it, whatever the columns of the table are. When its path is taken by a
  directory, in both versions the write raises, the error is logged under the number of
  the table, no line reports the file as saved, and the path is left as it was, so that
  no file is produced for the table. The written directory depends on the records of the
  tables only: tables with the same records and any other columns or titles give the same
  files.
\<close>

theorem empty_table_file_has_no_header:
  assumes "k < length ts"
    and "rows (ts ! k) = []"
  shows "(\<not> is_dir (makedirs out) (table_filename (Suc k)) \<longrightarrow>
            map_of (directory (save_tables_10 linesep ts out)) (table_filename (Suc k)) =
              Some (File linesep) \<and>
            map_of (directory (save_tables_11 linesep ts out)) (table_filename (Suc k)) =
              Some (File linesep)) \<and>
         (is_dir (makedirs out) (table_filename (Suc k)) \<longrightarrow>
            map_of (directory (save_tables_10 linesep ts out)) (table_filename (Suc k)) =
              map_of (makedirs out) (table_filename (Suc k)) \<and>
            map_of (directory (save_tables_11 linesep ts out)) (table_filename (Suc k)) =
              map_of (makedirs out) (table_filename (Suc k)) \<and>
            is_dir (directory (save_tables_10 linesep ts out)) (table_filename (Suc k)) \<and>
            is_dir (directory (save_tables_11 linesep ts out)) (table_filename (Suc k)) \<and>
            ErrorSaving (Suc k) IsADirectory \<in> set (logged (save_tables_10 linesep ts out)) \<and>
            ErrorSaving (Suc k) IsADirectory \<in> set (logged (save_tables_11 linesep ts out)) \<and>
            (\<forall>title. Saved title (table_filename (Suc k)) \<notin>
                       set (logged (save_tables_10 linesep ts out))) \<and>
            (\<forall>title. Saved title (table_filename (Suc k)) \<notin>
                       set (logged (save_tables_11 linesep ts out)))) \<and>
         (\<forall>ts'. map rows ts' = map rows ts \<longrightarrow>
                directory (save_tables_10 linesep ts' out) = directory (save_tables_10 linesep ts out) \<and>
                directory (save_tables_11 linesep ts' out) = directory (save_tables_11 linesep ts out))"
proof -
  let ?m = "table_filename (Suc k)"
  let ?count = "SavedOutOf
          (length (filter (\<lambda>k. \<not> is_dir (makedirs out) (table_filename k)) [1 ..< Suc (length ts)]))
          (length ts)"
  have a: "\<not> is_dir (makedirs out) ?m \<longrightarrow>
            map_of (directory (save_tables_10 linesep ts out)) ?m = Some (File linesep) \<and>
            map_of (directory (save_tables_11 linesep ts out)) ?m = Some (File linesep)"
  proof
    assume n: "\<not> is_dir (makedirs out) ?m"
    from written_file [OF assms(1) n, where linesep = linesep] assms(2)
    show "map_of (directory (save_tables_10 linesep ts out)) ?m = Some (File linesep) \<and>
          map_of (directory (save_tables_11 linesep ts out)) ?m = Some (File linesep)"
      by (simp add: to_csv_Nil)
  qed
  have b: "is_dir (makedirs out) ?m \<longrightarrow>
            map_of (directory (save_tables_10 linesep ts out)) ?m = map_of (makedirs out) ?m \<and>
            map_of (directory (save_tables_11 linesep ts out)) ?m = map_of (makedirs out) ?m \<and>
            is_dir (directory (save_tables_10 linesep ts out)) ?m \<and>
            is_dir (directory (save_tables_11 linesep ts out)) ?m \<and>
            ErrorSaving (Suc k) IsADirectory \<in> set (logged (save_tables_10 linesep ts out)) \<and>
            ErrorSaving (Suc k) IsADirectory \<in> set (logged (save_tables_11 linesep ts out)) \<and>
            (\<forall>title. Saved title ?m \<notin> set (logged (save_tables_10 linesep ts out))) \<and>
            (\<forall>title. Saved title ?m \<notin> set (logged (save_tables_11 linesep ts out)))"
  proof
    assume d: "is_dir (makedirs out) ?m"
    have b1: "map_of (directory (save_tables_10 linesep ts out)) ?m = map_of (makedirs out) ?m"
      by (rule blocked_file(1) [OF d])
    have b2: "map_of (directory (save_tables_11 linesep ts out)) ?m = map_of (makedirs out) ?m"
      by (rule blocked_file(2) [OF d])
    have b3: "is_dir (directory (save_tables_10 linesep ts out)) ?m"
      using d by (simp add: is_dir_def b1)
    have b4: "is_dir (directory (save_tables_11 linesep ts out)) ?m"
      using d by (simp add: is_dir_def b2)
    from save_loop_11_log_error [where k = k and ts = ts and idx = 1 and d = "makedirs out"
        and lg = "[SavingTo]" and linesep = linesep] assms(1) d
    have b6: "ErrorSaving (Suc k) IsADirectory \<in> set (logged (save_tables_11 linesep ts out))"
      by (simp add: logged_11)
    then have b5: "ErrorSaving (Suc k) IsADirectory \<in> set (logged (save_tables_10 linesep ts out))"
      by (simp add: logged_10)
    have b8: "\<forall>title. Saved title ?m \<notin> set (logged (save_tables_11 linesep ts out))"
    proof
      fix title
      have s: "Saved title ?m \<notin> set [SavingTo]" by simp
      show "Saved title ?m \<notin> set (logged (save_tables_11 linesep ts out))"
        unfolding logged_11 by (rule save_loop_11_log_saved [OF d s])
    qed
    then have b7: "\<forall>title. Saved title ?m \<notin> set (logged (save_tables_10 linesep ts out))"
      by (simp add: logged_10)
    show "map_of (directory (save_tables_10 linesep ts out)) ?m = map_of (makedirs out) ?m \<and>
            map_of (directory (save_tables_11 linesep ts out)) ?m = map_of (makedirs out) ?m \<and>
            is_dir (directory (save_tables_10 linesep ts out)) ?m \<and>
            is_dir (directory (save_tables_11 linesep ts out)) ?m \<and>
            ErrorSaving (Suc k) IsADirectory \<in> set (logged (save_tables_10 linesep ts out)) \<and>
            ErrorSaving (Suc k) IsADirectory \<in> set (logged (save_tables_11 linesep ts out)) \<and>
            (\<forall>title. Saved title ?m \<notin> set (logged (save_tables_10 linesep ts out))) \<and>
            (\<forall>title. Saved title ?m \<notin> set (logged (save_tables_11 linesep ts out)))"
      by (intro conjI) (rule b1 b2 b3 b4 b5 b6 b7 b8)+
  qed
  have c: "\<forall>ts'. map rows ts' = map rows ts \<longrightarrow>
                directory (save_tables_10 linesep ts' out) = directory (save_tables_10 linesep ts out) \<and>
                directory (save_tables_11 linesep ts' out) = directory (save_tables_11 linesep ts out)"
  proof (intro allI impI)
    fix ts' :: "table list" assume "map rows ts' = map rows ts"
    then have "fst (save_loop_11 linesep ts' 1 (makedirs out, [SavingTo])) =
               fst (save_loop_11 linesep ts 1 (makedirs out, [SavingTo]))"
      by (rule save_loop_11_rows)
    then show "directory (save_tables_10 linesep ts' out) = directory (save_tables_10 linesep ts out) \<and>
               directory (save_tables_11 linesep ts' out) = directory (save_tables_11 linesep ts out)"
      by (simp only: directory_10 directory_11)
  qed
  show ?thesis
    by (intro conjI) (rule a b c)+
qed

theorem empty_table_file_has_no_header_witness:
  "0 < length (extract_tables_10 header_only_doc ''u'') \<and>
   rows (extract_tables_10 header_only_doc ''u'' ! 0) = [] \<and>
   headers (extract_tables_10 header_only_doc ''u'' ! 0) =
     [''A'', ''week_info'', ''source_url'', ''table_title''] \<and>
   \<not> is_dir (makedirs (Some [])) (table_filename (Suc 0)) \<and>
   map_of (directory (save_tables_10 ''\<newline>'' (extract_tables_10 header_only_doc ''u'') (Some [])))
     ''table_1.csv'' = Some (File ''\<newline>'') \<and>
   is_dir (makedirs (Some [(''table_1.csv'', Dir [])])) (table_filename (Suc 0)) \<and>
   map_of (directory (save_tables_10 ''\<newline>'' (extract_tables_10 header_only_doc ''u'')
       (Some [(''table_1.csv'', Dir [])]))) ''table_1.csv'' = Some (Dir []) \<and>
   ErrorSaving (Suc 0) IsADirectory \<in>
     set (logged (save_tables_10 ''\<newline>'' (extract_tables_10 header_only_doc ''u'')
       (Some [(''table_1.csv'', Dir [])])))"
proof -
  let ?ts = "extract_tables_10 header_only_doc ''u''"
  let ?out = "Some [(''table_1.csv'', Dir [])]"
  have e: "?ts = [\<lparr> headers = [''A'', ''week_info'', ''source_url'', ''table_title''],
        rows = [], table_title = ''Untitled Table'' \<rparr>]" by code_simp
  have a: "0 < length ?ts" by (simp add: e)
  have b: "rows (?ts ! 0) = []" by (simp add: e)
  have n: "table_filename (Suc 0) = ''table_1.csv''" by code_simp
  have c: "\<not> is_dir (makedirs (Some [])) (table_filename (Suc 0))"
    by (simp add: is_dir_def makedirs_def)
  have d: "is_dir (makedirs ?out) (table_filename (Suc 0))"
    by (simp add: is_dir_def makedirs_def n)
  have m: "map_of (makedirs ?out) ''table_1.csv'' = Some (Dir [])"
    by (simp add: makedirs_def)
  have h: "headers (?ts ! 0) = [''A'', ''week_info'', ''source_url'', ''table_title'']"
    by (simp add: e)
  note w = empty_table_file_has_no_header [OF a b, where linesep = "''\<newline>''" and out = "Some []"]
  note v = empty_table_file_has_no_header [OF a b, where linesep = "''\<newline>''" and out = ?out]
  have x: "map_of (directory (save_tables_10 ''\<newline>'' ?ts (Some []))) ''table_1.csv'' =
             Some (File ''\<newline>'')"
    using conjunct1 [OF mp [OF conjunct1 [OF w] c]] by (simp only: n)
  note vd = mp [OF conjunct1 [OF conjunct2 [OF v]] d]
  have y: "map_of (directory (save_tables_10 ''\<newline>'' ?ts ?out)) ''table_1.csv'' = Some (Dir [])"
    using conjunct1 [OF vd] by (simp only: n m)
  have z: "ErrorSaving (Suc 0) IsADirectory \<in> set (logged (save_tables_10 ''\<newline>'' ?ts ?out))"
    by (rule conjunct1 [OF conjunct2 [OF conjunct2 [OF conjunct2 [OF conjunct2 [OF vd]]]]])
  show ?thesis
    by (intro conjI) (rule a b h c x d y z)+
qed

end
